theory Spec2Isabelle
  imports Complex_Main
begin

section \<open>JavaScript values\<close>

text \<open>
  The conversion worker (\<^verbatim>\<open>jsonToCsv\<close>, \<^verbatim>\<open>csvToJson\<close>, \<^verbatim>\<open>self.onmessage\<close>) and the tree
  renderer (\<^verbatim>\<open>JsonTree\<close>) are JavaScript. The embedding fixes the following reading of
  the language's own data:

  \<^item> a string is the list of its code units; a \<^typ>\<open>char\<close> is a code unit below 256, so
    the theory speaks about texts in the Latin-1 range;
  \<^item> a Number is a binary64 value: NaN, an infinity, or \<open>Finite r\<close> with \<open>r\<close> the
    rational value of a finite double; \<open>-0\<close> is not told apart from \<open>0\<close> (they are
    \<^verbatim>\<open>===\<close>);
  \<^item> an object is the list of its own enumerable properties in the order in which
    \<^verbatim>\<open>Object.keys\<close> enumerates them; an array is the list of its elements (no holes).
    The values are data, as \<^verbatim>\<open>JSON.parse\<close> and the structured clone of a message
    give them: no property of an object is a function;
  \<^item> a thrown error is \<open>Inl\<close> of its message, a normal result is \<open>Inr\<close>.
\<close>

datatype jsnum = NaN | PosInfinity | NegInfinity | Finite rat

datatype jsval =
    JUndefined
  | JNull
  | JBool bool
  | JNum jsnum
  | JStr string
  | JArr "jsval list"
  | JObj "(string \<times> jsval) list"

section \<open>String primitives used by the worker\<close>

definition dquote :: char where
  "dquote = CHR 0x22"

definition comma :: char where
  "comma = CHR 0x2C"

definition LF :: char where
  "LF = CHR 0x0A"

definition CR :: char where
  "CR = CHR 0x0D"

text \<open>
  \<^verbatim>\<open>String.prototype.trim\<close> removes WhiteSpace and LineTerminator code units from both
  ends: TAB, LF, VT, FF, CR, SP and NBSP below 256.
\<close>

definition isWhiteSpace :: "char \<Rightarrow> bool" where
  "isWhiteSpace c =
     (c \<in> set [CHR 0x09, CHR 0x0A, CHR 0x0B, CHR 0x0C, CHR 0x0D, CHR 0x20, CHR 0xA0])"

definition trim :: "string \<Rightarrow> string" where
  "trim s = rev (dropWhile isWhiteSpace (rev (dropWhile isWhiteSpace s)))"

text \<open>
  \<^verbatim>\<open>toLowerCase\<close> on code units below 256: \<open>A\<close>..\<open>Z\<close> and the Latin-1 capitals
  \<open>0xC0\<close>..\<open>0xDE\<close> (without the multiplication sign \<open>0xD7\<close>) move up by 32.
\<close>

definition toLowerChar :: "char \<Rightarrow> char" where
  "toLowerChar c =
     (let n = (of_char c :: nat)
      in if (65 \<le> n \<and> n \<le> 90) \<or> (192 \<le> n \<and> n \<le> 222 \<and> n \<noteq> 215)
         then char_of (n + 32) else c)"

definition toLowerCase :: "string \<Rightarrow> string" where
  "toLowerCase s = map toLowerChar s"

definition startsWith_dquote :: "string \<Rightarrow> bool" where
  "startsWith_dquote s = (case s of [] \<Rightarrow> False | c # _ \<Rightarrow> c = dquote)"

definition endsWith_dquote :: "string \<Rightarrow> bool" where
  "endsWith_dquote s = (s \<noteq> [] \<and> last s = dquote)"

text \<open>
  \<^verbatim>\<open>s.slice(1, -1)\<close>: the code units from index 1 up to, not including, the last one;
  empty when \<open>s\<close> has fewer than two code units.
\<close>

definition slice_1_m1 :: "string \<Rightarrow> string" where
  "slice_1_m1 s = butlast (tl s)"

text \<open>
  \<^verbatim>\<open>s.replace(/""/g, '"')\<close>: matches are found left to right and do not overlap.
\<close>

fun replace_dquote2 :: "string \<Rightarrow> string" where
  "replace_dquote2 (a # b # cs) =
     (if a = dquote \<and> b = dquote then dquote # replace_dquote2 cs
      else a # replace_dquote2 (b # cs))"
| "replace_dquote2 cs = cs"

text \<open>
  \<^verbatim>\<open>h.replace(/^"|"$/g, '')\<close>: one quote at the very start is removed, and one quote
  at the very end (of what is left after the first removal: the matches do not overlap).
\<close>

definition replace_edge_dquote :: "string \<Rightarrow> string" where
  "replace_edge_dquote h =
     (let h1 = (if startsWith_dquote h then tl h else h)
      in if endsWith_dquote h1 then butlast h1 else h1)"

text \<open>
  \<^verbatim>\<open>s.split(',')\<close>. The first argument is the piece collected since the last
  separator; the empty string splits into one empty piece.
\<close>

fun split_comma :: "string \<Rightarrow> string \<Rightarrow> string list" where
  "split_comma cur [] = [cur]"
| "split_comma cur (c # cs) =
     (if c = comma then cur # split_comma [] cs else split_comma (cur @ [c]) cs)"

text \<open>
  \<^verbatim>\<open>s.split(/\r?\n/)\<close>: a separator is LF, or CR immediately followed by LF. At a
  CR the optional \<^verbatim>\<open>\r\<close> is tried first, so CR LF is one separator.
\<close>

fun split_lines :: "string \<Rightarrow> string \<Rightarrow> string list" where
  "split_lines cur [] = [cur]"
| "split_lines cur (c # cs) =
     (if c = LF then cur # split_lines [] cs
      else if c = CR \<and> (case cs of [] \<Rightarrow> False | d # _ \<Rightarrow> d = LF)
           then cur # split_lines [] (tl cs)
      else split_lines (cur @ [c]) cs)"

text \<open>
  \<^verbatim>\<open>s.split(splitRegex)\<close> with
  \<^verbatim>\<open>splitRegex = /,(?=(?:(?:[^"]*"){2})*[^"]*$)/\<close>: the separator is a comma at which the
  lookahead succeeds. The lookahead consumes quotes two at a time and then a quote-free
  tail up to the end of the string, so it succeeds exactly when the rest of the string
  holds an even number of quotes.
\<close>

definition lookahead_even_dquotes :: "string \<Rightarrow> bool" where
  "lookahead_even_dquotes rest = even (length (filter (\<lambda>c. c = dquote) rest))"

fun split_splitRegex :: "string \<Rightarrow> string \<Rightarrow> string list" where
  "split_splitRegex cur [] = [cur]"
| "split_splitRegex cur (c # cs) =
     (if c = comma \<and> lookahead_even_dquotes cs then cur # split_splitRegex [] cs
      else split_splitRegex (cur @ [c]) cs)"

section \<open>\<^verbatim>\<open>Number(string)\<close>\<close>

text \<open>
  The language's StringToNumber: surrounding white space is dropped; the empty text is
  0; otherwise the text must be, in full, a StrNumericLiteral: an optionally signed
  decimal literal (\<^verbatim>\<open>Infinity\<close>, digits with an optional fraction and exponent), or an
  unsigned binary, octal or hexadecimal integer literal. Anything else is NaN.
\<close>

definition isDigit :: "char \<Rightarrow> bool" where
  "isDigit c = (let n = (of_char c :: nat) in 48 \<le> n \<and> n \<le> 57)"

definition hexDigitValue :: "char \<Rightarrow> nat option" where
  "hexDigitValue c =
     (let n = (of_char c :: nat)
      in if 48 \<le> n \<and> n \<le> 57 then Some (n - 48)
         else if 97 \<le> n \<and> n \<le> 102 then Some (n - 87)
         else if 65 \<le> n \<and> n \<le> 70 then Some (n - 55)
         else None)"

text \<open>The value of a non-empty run of digits in the given radix; \<open>None\<close> otherwise.\<close>

fun digitsValue_acc :: "nat \<Rightarrow> nat \<Rightarrow> string \<Rightarrow> nat option" where
  "digitsValue_acc radix acc [] = Some acc"
| "digitsValue_acc radix acc (c # cs) =
     (case hexDigitValue c of
        None \<Rightarrow> None
      | Some d \<Rightarrow> if d < radix then digitsValue_acc radix (acc * radix + d) cs else None)"

definition digitsValue :: "nat \<Rightarrow> string \<Rightarrow> nat option" where
  "digitsValue radix s = (if s = [] then None else digitsValue_acc radix 0 s)"

text \<open>SignedInteger after the exponent indicator.\<close>

definition parseSignedInteger :: "string \<Rightarrow> int option" where
  "parseSignedInteger s =
     (case s of
        [] \<Rightarrow> None
      | c # cs \<Rightarrow>
          if c = CHR ''+'' then map_option int (digitsValue 10 cs)
          else if c = CHR ''-'' then map_option (\<lambda>n. - int n) (digitsValue 10 cs)
          else map_option int (digitsValue 10 s))"

text \<open>ExponentPart, optional: nothing left is exponent 0.\<close>

definition parseExponentPart :: "string \<Rightarrow> int option" where
  "parseExponentPart s =
     (case s of
        [] \<Rightarrow> Some 0
      | c # cs \<Rightarrow> if c = CHR ''e'' \<or> c = CHR ''E'' then parseSignedInteger cs else None)"

text \<open>
  The Number for a mathematical value \<open>p / q\<close> (\<open>q > 0\<close>): the nearest double, the even
  significand at a tie. With \<open>2^E \<le> p / q < 2^(E+1)\<close> the doubles around \<open>p / q\<close> are the
  multiples of \<open>2^e\<close>, \<open>e = E - 52\<close>, and of \<open>2^(-1074)\<close> below \<open>2^(-1022)\<close>; a result of
  \<open>2^1024\<close> or more is \<open>Infinity\<close>. (The language lets an engine cut a literal after
  its 20th significant digit; the model rounds the exact value, as the engines do.)
\<close>

fun bitLength :: "nat \<Rightarrow> nat" where
  "bitLength n = (if n = 0 then 0 else Suc (bitLength (n div 2)))"

declare bitLength.simps [simp del]

definition floorLog2 :: "nat \<Rightarrow> nat \<Rightarrow> int" where
  "floorLog2 p q =
     (let k = int (bitLength p) - int (bitLength q)
      in if (if 0 \<le> k then q * 2 ^ nat k \<le> p else q \<le> p * 2 ^ nat (- k)) then k else k - 1)"

definition roundHalfEven :: "nat \<Rightarrow> nat \<Rightarrow> nat" where
  "roundHalfEven a b =
     (let n = a div b; r = a mod b
      in if 2 * r < b then n else if b < 2 * r then n + 1 else if even n then n else n + 1)"

definition toDouble :: "nat \<Rightarrow> nat \<Rightarrow> jsnum" where
  "toDouble p q =
     (if p = 0 then Finite 0
      else
        let e = max (floorLog2 p q) (- 1022) - 52;
            n = (if 0 \<le> e then roundHalfEven p (q * 2 ^ nat e)
                 else roundHalfEven (p * 2 ^ nat (- e)) q)
        in if 0 \<le> e then
             (if 2 ^ 1024 \<le> n * 2 ^ nat e then PosInfinity else Finite (of_nat (n * 2 ^ nat e)))
           else Finite (of_nat n / 2 ^ nat (- e)))"

text \<open>The Number for \<open>m \<times> 10^e\<close>.\<close>

definition scale10 :: "nat \<Rightarrow> int \<Rightarrow> jsnum" where
  "scale10 m e = (if 0 \<le> e then toDouble (m * 10 ^ nat e) 1 else toDouble m (10 ^ nat (- e)))"

text \<open>
  StrUnsignedDecimalLiteral: \<^verbatim>\<open>Infinity\<close>, \<^verbatim>\<open>digits . digits? exp?\<close>,
  \<^verbatim>\<open>. digits exp?\<close> or \<^verbatim>\<open>digits exp?\<close>. The result is the literal's mathematical value,
  rounded.
\<close>

definition parseUnsignedDecimal :: "string \<Rightarrow> jsnum" where
  "parseUnsignedDecimal s =
     (if s = ''Infinity'' then PosInfinity
      else
        let ip = takeWhile isDigit s; r1 = dropWhile isDigit s
        in case r1 of
             [] \<Rightarrow> (case digitsValue 10 ip of None \<Rightarrow> NaN | Some m \<Rightarrow> toDouble m 1)
           | c # r2 \<Rightarrow>
               if c = CHR ''.'' then
                 (let fp = takeWhile isDigit r2; r3 = dropWhile isDigit r2
                  in case (digitsValue 10 (ip @ fp), parseExponentPart r3) of
                       (Some m, Some e) \<Rightarrow> scale10 m (e - int (length fp))
                     | _ \<Rightarrow> NaN)
               else
                 (case (digitsValue 10 ip, parseExponentPart r1) of
                    (Some m, Some e) \<Rightarrow> scale10 m e
                  | _ \<Rightarrow> NaN))"

definition negate :: "jsnum \<Rightarrow> jsnum" where
  "negate n =
     (case n of NaN \<Rightarrow> NaN | PosInfinity \<Rightarrow> NegInfinity | NegInfinity \<Rightarrow> PosInfinity
      | Finite r \<Rightarrow> Finite (- r))"

text \<open>NonDecimalIntegerLiteral: \<^verbatim>\<open>0b\<close>, \<^verbatim>\<open>0o\<close>, \<^verbatim>\<open>0x\<close> (either case), no sign.\<close>

definition parseNonDecimal :: "string \<Rightarrow> jsnum option" where
  "parseNonDecimal s =
     (case s of
        z # p # ds \<Rightarrow>
          if z = CHR ''0'' then
            (let radix = (if p = CHR ''b'' \<or> p = CHR ''B'' then Some 2
                          else if p = CHR ''o'' \<or> p = CHR ''O'' then Some 8
                          else if p = CHR ''x'' \<or> p = CHR ''X'' then Some (16::nat)
                          else None)
             in case radix of
                  None \<Rightarrow> None
                | Some r \<Rightarrow>
                    Some (case digitsValue r ds of None \<Rightarrow> NaN | Some m \<Rightarrow> toDouble m 1))
          else None
      | _ \<Rightarrow> None)"

definition Number :: "string \<Rightarrow> jsnum" where
  "Number str =
     (let s = trim str
      in if s = [] then Finite 0
         else case parseNonDecimal s of
                Some n \<Rightarrow> n
              | None \<Rightarrow>
                  (case s of
                     [] \<Rightarrow> Finite 0
                   | c # cs \<Rightarrow>
                       if c = CHR ''+'' then parseUnsignedDecimal cs
                       else if c = CHR ''-'' then negate (parseUnsignedDecimal cs)
                       else parseUnsignedDecimal s))"

definition isNaN :: "jsnum \<Rightarrow> bool" where
  "isNaN n = (n = NaN)"

section \<open>Objects built by assignment\<close>

text \<open>
  \<^verbatim>\<open>csvToJson\<close> creates each row as \<^verbatim>\<open>{}\<close> and fills it with \<^verbatim>\<open>obj[header] = value\<close>.
  The object under construction is its own properties together with the one fact about
  its prototype that assignment can change: whether it still is \<^verbatim>\<open>Object.prototype\<close>.
\<close>

record js_object =
  protoIsNull :: bool
  ownProps :: "(string \<times> jsval) list"

definition emptyObject :: js_object where
  "emptyObject = \<lparr>protoIsNull = False, ownProps = []\<rparr>"

text \<open>
  An array index is a canonical numeric string (no leading zero, no sign) whose value
  is below \<open>2^32 - 1\<close>. Own property keys that are array indices are enumerated first,
  in ascending order; all other keys follow in the order of their creation.
\<close>

definition arrayIndex :: "string \<Rightarrow> nat option" where
  "arrayIndex k =
     (case digitsValue 10 k of
        None \<Rightarrow> None
      | Some n \<Rightarrow> if (k = ''0'' \<or> hd k \<noteq> CHR ''0'') \<and> n < 4294967295 then Some n else None)"

fun insertProp :: "string \<Rightarrow> jsval \<Rightarrow> (string \<times> jsval) list \<Rightarrow> (string \<times> jsval) list" where
  "insertProp k v [] = [(k, v)]"
| "insertProp k v ((k', v') # ps) =
     (case arrayIndex k of
        None \<Rightarrow> (k', v') # insertProp k v ps
      | Some n \<Rightarrow>
          (case arrayIndex k' of
             None \<Rightarrow> (k, v) # (k', v') # ps
           | Some n' \<Rightarrow> if n < n' then (k, v) # (k', v') # ps else (k', v') # insertProp k v ps))"

text \<open>Writing an own data property: an existing key keeps its place, a new key is created.\<close>

definition setOwn :: "string \<Rightarrow> jsval \<Rightarrow> (string \<times> jsval) list \<Rightarrow> (string \<times> jsval) list" where
  "setOwn k v ps =
     (if map_of ps k = None then insertProp k v ps
      else map (\<lambda>(k', v'). (k', if k' = k then v else v')) ps)"

text \<open>
  \<^verbatim>\<open>obj[k] = v\<close>. Every property of \<^verbatim>\<open>Object.prototype\<close> is a writable data property,
  so the assignment creates or updates an own property, with one exception: \<^verbatim>\<open>__proto__\<close>
  is an accessor there, and while the object inherits it the assignment runs its setter
  instead. The setter creates no own property; given \<^verbatim>\<open>null\<close> it sets the prototype
  to null, and it ignores every other value that is not an object. Once the prototype
  is null, \<^verbatim>\<open>__proto__\<close> is a key like any other.
\<close>

definition assignProp :: "js_object \<Rightarrow> string \<Rightarrow> jsval \<Rightarrow> js_object" where
  "assignProp obj k v =
     (if k = ''__proto__'' \<and> \<not> protoIsNull obj
      then (if v = JNull then obj\<lparr>protoIsNull := True\<rparr> else obj)
      else obj\<lparr>ownProps := setOwn k v (ownProps obj)\<rparr>)"

section \<open>\<^verbatim>\<open>csvToJson\<close>\<close>

text \<open>
  The \<^verbatim>\<open>headers.forEach\<close> callback, for a field that exists, in its two steps.
  First \<^verbatim>\<open>let val = values[index].trim()\<close> and the removal of surrounding quotes:
\<close>

definition unquote :: "string \<Rightarrow> string" where
  "unquote raw =
     (let val = trim raw
      in if startsWith_dquote val \<and> endsWith_dquote val
         then replace_dquote2 (slice_1_m1 val) else val)"

text \<open>then the chain under \<^verbatim>\<open>// Auto-convert types\<close>, giving the value assigned:\<close>

definition autoConvert :: "string \<Rightarrow> jsval" where
  "autoConvert val =
     (if val = [] then JNull
      else if \<not> isNaN (Number val) \<and> length val > 0 then JNum (Number val)
      else if toLowerCase val = ''true'' then JBool True
      else if toLowerCase val = ''false'' then JBool False
      else JStr val)"

definition fieldValue :: "string \<Rightarrow> jsval" where
  "fieldValue raw = autoConvert (unquote raw)"

text \<open>
  \<^verbatim>\<open>headers.forEach((header, index) => { if (values[index] !== undefined) ... })\<close>:
  \<open>index\<close> counts the headers already visited.
\<close>

fun headers_forEach :: "string list \<Rightarrow> nat \<Rightarrow> string list \<Rightarrow> js_object \<Rightarrow> js_object" where
  "headers_forEach [] index values obj = obj"
| "headers_forEach (header # hs) index values obj =
     headers_forEach hs (Suc index) values
       (if index < length values then assignProp obj header (fieldValue (values ! index))
        else obj)"

text \<open>
  The body of the \<^verbatim>\<open>for\<close> loop after the blank-line test: the object pushed for a line.
\<close>

definition lineObject :: "string list \<Rightarrow> string \<Rightarrow> jsval" where
  "lineObject headers currentLine =
     (let values = split_splitRegex [] currentLine;
          obj = headers_forEach headers 0 values emptyObject
      in JObj (ownProps obj))"

text \<open>The \<^verbatim>\<open>for\<close> loop over \<^verbatim>\<open>lines[1]\<close>, \<^verbatim>\<open>lines[2]\<close>, ...; \<open>result\<close> is the array so far.\<close>

fun lines_loop :: "string list \<Rightarrow> string list \<Rightarrow> jsval list \<Rightarrow> jsval list" where
  "lines_loop headers [] result = result"
| "lines_loop headers (line # lines) result =
     (let currentLine = trim line
      in if currentLine = [] then lines_loop headers lines result
         else lines_loop headers lines (result @ [lineObject headers currentLine]))"

text \<open>
  \<^verbatim>\<open>lines[0].split(',').map(h => h.trim().replace(/^"|"$/g, ''))\<close>: the header line is
  cut at every comma, quoted or not.
\<close>

definition parseHeaders :: "string \<Rightarrow> string list" where
  "parseHeaders line = map (\<lambda>h. replace_edge_dquote (trim h)) (split_comma [] line)"

definition csvToJson :: "string \<Rightarrow> jsval list" where
  "csvToJson csv =
     (let lines = split_lines [] (trim csv)
      in if length lines < 2 then []
         else lines_loop (parseHeaders (lines ! 0)) (drop 1 lines) [])"

section \<open>What the JavaScript engine supplies\<close>

text \<open>
  Five things that the worker uses are the engine's, not the repository's, and enter
  the model as parameters:

  \<^item> \<open>JSON_parse\<close>: the outcome of \<^verbatim>\<open>JSON.parse(data)\<close>, either the parsed value or the
    message of the error it throws (the argument is converted to a string by
    \<^verbatim>\<open>JSON.parse\<close> itself);
  \<^item> \<open>Number_toString\<close>: the text of a finite Number that is not an integer of
    magnitude at most \<open>2^53\<close> (shortest round-trip formatting of a binary float);
  \<^item> \<open>inherited_stringVal\<close>: the \<^verbatim>\<open>stringVal\<close> that \<^verbatim>\<open>jsonToCsv\<close> computes from
    \<^verbatim>\<open>item[header]\<close> when \<open>header\<close> is not an own property of \<open>item\<close>, so that the
    lookup goes to the prototype chain (empty when nothing is found there);
  \<^item> \<open>trim_TypeError_message\<close>: the message of the TypeError that \<^verbatim>\<open>csv.trim()\<close> throws
    when \<open>csv\<close> is not a string;
  \<^item> \<open>toPrimitive_TypeError_message\<close>: the message of the TypeError that \<^verbatim>\<open>String(val)\<close>
    throws when the object \<open>val\<close> cannot be converted to a primitive value.
\<close>

record engine =
  JSON_parse :: "jsval \<Rightarrow> string + jsval"
  Number_toString :: "rat \<Rightarrow> string"
  inherited_stringVal :: "jsval \<Rightarrow> string \<Rightarrow> string"
  trim_TypeError_message :: "jsval \<Rightarrow> string"
  toPrimitive_TypeError_message :: "jsval \<Rightarrow> string"

section \<open>\<^verbatim>\<open>String(value)\<close>\<close>

text \<open>The decimal digits of a natural number, most significant first.\<close>

fun natToString :: "nat \<Rightarrow> string" where
  "natToString n =
     (if n < 10 then [''0123456789'' ! n]
      else natToString (n div 10) @ [''0123456789'' ! (n mod 10)])"

declare natToString.simps [simp del]

definition numberToString :: "(rat \<Rightarrow> string) \<Rightarrow> jsnum \<Rightarrow> string" where
  "numberToString fmt n =
     (case n of
        NaN \<Rightarrow> ''NaN''
      | PosInfinity \<Rightarrow> ''Infinity''
      | NegInfinity \<Rightarrow> ''-Infinity''
      | Finite r \<Rightarrow>
          if r = of_int \<lfloor>r\<rfloor> \<and> \<bar>r\<bar> \<le> 9007199254740992
          then (if r < 0 then ''-'' else []) @ natToString (nat \<bar>\<lfloor>r\<rfloor>\<bar>)
          else fmt r)"

text \<open>\<^verbatim>\<open>Array.prototype.join\<close> on strings.\<close>

fun join :: "string \<Rightarrow> string list \<Rightarrow> string" where
  "join sep [] = []"
| "join sep [x] = x"
| "join sep (x # y # ys) = x @ sep @ join sep (y # ys)"

text \<open>
  The results of a run of evaluations done one after the other: the first error thrown
  ends the run.
\<close>

fun firstThrow :: "(string + 'a) list \<Rightarrow> string + 'a list" where
  "firstThrow [] = Inr []"
| "firstThrow (x # xs) =
     (case x of
        Inl message \<Rightarrow> Inl message
      | Inr v \<Rightarrow> (case firstThrow xs of Inl message \<Rightarrow> Inl message | Inr vs \<Rightarrow> Inr (v # vs)))"

text \<open>
  \<^verbatim>\<open>String(val)\<close>. An array is its elements joined by commas, \<^verbatim>\<open>null\<close> and \<^verbatim>\<open>undefined\<close>
  elements giving the empty text. An object is converted by its \<^verbatim>\<open>toString\<close>, then by
  its \<^verbatim>\<open>valueOf\<close>: with the inherited \<^verbatim>\<open>toString\<close> it is \<^verbatim>\<open>[object Object]\<close>; with
  an own property \<^verbatim>\<open>toString\<close>, which is no function, \<^verbatim>\<open>valueOf\<close> is tried, and
  whether that is an own property (no function either) or the inherited one (which
  returns the object itself) no primitive value results and a TypeError is thrown.
\<close>

fun ToString :: "engine \<Rightarrow> jsval \<Rightarrow> string + string" where
  "ToString eng JUndefined = Inr ''undefined''"
| "ToString eng JNull = Inr ''null''"
| "ToString eng (JBool b) = Inr (if b then ''true'' else ''false'')"
| "ToString eng (JNum n) = Inr (numberToString (Number_toString eng) n)"
| "ToString eng (JStr s) = Inr s"
| "ToString eng (JArr xs) =
     (case firstThrow
             (map (\<lambda>x. if x = JNull \<or> x = JUndefined then Inr [] else ToString eng x) xs) of
        Inl message \<Rightarrow> Inl message
      | Inr texts \<Rightarrow> Inr (join '','' texts))"
| "ToString eng (JObj ps) =
     (if ''toString'' \<in> fst ` set ps then Inl (toPrimitive_TypeError_message eng (JObj ps))
      else Inr ''[object Object]'')"

section \<open>\<^verbatim>\<open>jsonToCsv\<close>\<close>

text \<open>\<^verbatim>\<open>typeof item === 'object' && item !== null\<close>: arrays are objects too.\<close>

definition isObjectNotNull :: "jsval \<Rightarrow> bool" where
  "isObjectNotNull item = (case item of JArr _ \<Rightarrow> True | JObj _ \<Rightarrow> True | _ \<Rightarrow> False)"

text \<open>
  \<^verbatim>\<open>Object.keys\<close>, which the sources apply to arrays and objects only: the indices of
  an array as decimal strings, the keys of an object.
\<close>

definition Object_keys :: "jsval \<Rightarrow> string list" where
  "Object_keys v =
     (case v of
        JArr xs \<Rightarrow> map natToString [0..<length xs]
      | JObj ps \<Rightarrow> map fst ps
      | JStr s \<Rightarrow> map natToString [0..<length s]
      | _ \<Rightarrow> [])"

text \<open>\<^verbatim>\<open>keys.add(k)\<close> on a \<^verbatim>\<open>Set\<close>, which keeps its elements in insertion order.\<close>

definition Set_add :: "string list \<Rightarrow> string \<Rightarrow> string list" where
  "Set_add keys k = (if k \<in> set keys then keys else keys @ [k])"

text \<open>The \<^verbatim>\<open>items.forEach\<close> that fills \<^verbatim>\<open>keys\<close>, followed by \<^verbatim>\<open>Array.from(keys)\<close>.\<close>

definition collectKeys :: "jsval list \<Rightarrow> string list" where
  "collectKeys items =
     fold (\<lambda>item keys.
             if isObjectNotNull item then fold (\<lambda>k keys. Set_add keys k) (Object_keys item) keys
             else keys)
          items []"

text \<open>
  The own property \<open>k\<close> of an array or object, if there is one. An array owns its
  elements under their indices and its \<^verbatim>\<open>length\<close>.
\<close>

definition getOwnProperty :: "jsval \<Rightarrow> string \<Rightarrow> jsval option" where
  "getOwnProperty item k =
     (case item of
        JObj ps \<Rightarrow> map_of ps k
      | JArr xs \<Rightarrow>
          (case arrayIndex k of
             Some i \<Rightarrow> if i < length xs then Some (xs ! i) else None
           | None \<Rightarrow> if k = ''length'' then Some (JNum (Finite (of_nat (length xs)))) else None)
      | _ \<Rightarrow> None)"

text \<open>\<^verbatim>\<open>stringVal.replace(/"/g, '""')\<close>.\<close>

definition replace_dquote_all :: "string \<Rightarrow> string" where
  "replace_dquote_all s = concat (map (\<lambda>c. if c = dquote then [dquote, dquote] else [c]) s)"

text \<open>
  The \<^verbatim>\<open>headers.map\<close> callback in its two steps. First \<^verbatim>\<open>stringVal\<close>: the text of
  \<^verbatim>\<open>item[header]\<close>, empty for \<^verbatim>\<open>null\<close> and \<^verbatim>\<open>undefined\<close>;
\<close>

definition stringVal :: "engine \<Rightarrow> jsval \<Rightarrow> string \<Rightarrow> string + string" where
  "stringVal eng item header =
     (case getOwnProperty item header of
        Some val \<Rightarrow>
          if val = JNull \<or> val = JUndefined then Inr []
          else ToString eng val
      | None \<Rightarrow> Inr (inherited_stringVal eng item header))"

text \<open>then the field: \<^verbatim>\<open>stringVal\<close> with its quotes doubled, between two quotes.\<close>

definition csvField :: "engine \<Rightarrow> jsval \<Rightarrow> string \<Rightarrow> string + string" where
  "csvField eng item header =
     (case stringVal eng item header of
        Inl message \<Rightarrow> Inl message
      | Inr sval \<Rightarrow>
          (let escaped = replace_dquote_all sval
           in Inr ([dquote] @ escaped @ [dquote])))"

text \<open>
  The body of the \<^verbatim>\<open>for (const item of items)\<close> loop for an element that is not
  skipped: the row pushed, \<^verbatim>\<open>values.join(',')\<close>.
\<close>

definition itemRow :: "engine \<Rightarrow> string list \<Rightarrow> jsval \<Rightarrow> string + string" where
  "itemRow eng headers item =
     (case firstThrow (map (csvField eng item) headers) of
        Inl message \<Rightarrow> Inl message
      | Inr values \<Rightarrow> Inr (join '','' values))"

text \<open>The loop itself; \<open>csvRows\<close> is the array so far.\<close>

fun items_loop ::
  "engine \<Rightarrow> string list \<Rightarrow> jsval list \<Rightarrow> string list \<Rightarrow> string + string list" where
  "items_loop eng headers [] csvRows = Inr csvRows"
| "items_loop eng headers (item # items) csvRows =
     (if \<not> isObjectNotNull item then items_loop eng headers items csvRows
      else case itemRow eng headers item of
             Inl message \<Rightarrow> Inl message
           | Inr row \<Rightarrow> items_loop eng headers items (csvRows @ [row]))"

text \<open>The array \<^verbatim>\<open>csvRows\<close> when the loop is over, for a non-empty array \<open>items\<close>.\<close>

definition csvRows :: "engine \<Rightarrow> jsval list \<Rightarrow> string + string list" where
  "csvRows eng items =
     (let headers = collectKeys items
      in items_loop eng headers items [join '','' headers])"

definition jsonToCsv :: "engine \<Rightarrow> jsval \<Rightarrow> string + string" where
  "jsonToCsv eng items =
     (case items of
        JArr xs \<Rightarrow>
          if length xs = 0 then Inr []
          else (case csvRows eng xs of
                  Inl message \<Rightarrow> Inl message
                | Inr rows \<Rightarrow> Inr (join [LF] rows))
      | _ \<Rightarrow> Inr [])"

section \<open>\<^verbatim>\<open>self.onmessage\<close>\<close>

text \<open>
  The message \<^verbatim>\<open>e.data\<close> after \<^verbatim>\<open>const { type, data, id } = e.data\<close>, and the replies
  that the handler posts. A thrown error is \<open>Inl\<close> of its message.
\<close>

record request =
  msg_type :: jsval
  msg_data :: jsval
  msg_id :: jsval

datatype reply = SUCCESS jsval jsval | ERROR jsval string

text \<open>The \<^verbatim>\<open>switch\<close> inside \<^verbatim>\<open>try\<close>: the final \<^verbatim>\<open>result\<close>, or the error thrown.\<close>

definition switch_type :: "engine \<Rightarrow> request \<Rightarrow> string + jsval" where
  "switch_type eng req =
     (if msg_type req = JStr ''PARSE'' then JSON_parse eng (msg_data req)
      else if msg_type req = JStr ''JSON_TO_CSV'' then
        (case jsonToCsv eng (msg_data req) of
           Inl message \<Rightarrow> Inl message
         | Inr csv \<Rightarrow> Inr (JStr csv))
      else if msg_type req = JStr ''CSV_TO_JSON'' then
        (case msg_data req of
           JStr csv \<Rightarrow> Inr (JArr (csvToJson csv))
         | _ \<Rightarrow> Inl (trim_TypeError_message eng (msg_data req)))
      else Inr JUndefined)"

text \<open>The handler: the list of messages posted, in order.\<close>

definition onmessage :: "engine \<Rightarrow> request \<Rightarrow> reply list" where
  "onmessage eng req =
     (case switch_type eng req of
        Inr result \<Rightarrow> [SUCCESS (msg_id req) result]
      | Inl message \<Rightarrow> [ERROR (msg_id req) message])"

section \<open>\<^verbatim>\<open>JsonTree\<close>\<close>

definition ITEMS_PER_PAGE :: int where
  "ITEMS_PER_PAGE = 50"

text \<open>The component's state that decides which children are shown.\<close>

record node_state =
  isExpanded :: bool
  displayLimit :: int

definition initialState :: "nat \<Rightarrow> node_state" where
  "initialState depth = \<lparr>isExpanded = (depth < 1), displayLimit = ITEMS_PER_PAGE\<rparr>"

definition getDataType :: "jsval \<Rightarrow> string" where
  "getDataType data =
     (case data of
        JNull \<Rightarrow> ''null''
      | JArr _ \<Rightarrow> ''array''
      | JUndefined \<Rightarrow> ''undefined''
      | JBool _ \<Rightarrow> ''boolean''
      | JNum _ \<Rightarrow> ''number''
      | JStr _ \<Rightarrow> ''string''
      | JObj _ \<Rightarrow> ''object'')"

definition isObject :: "jsval \<Rightarrow> bool" where
  "isObject data = (getDataType data = ''object'' \<or> getDataType data = ''array'')"

definition isEmpty :: "jsval \<Rightarrow> bool" where
  "isEmpty data = (isObject data \<and> length (Object_keys data) = 0)"

text \<open>\<^verbatim>\<open>keys.slice(0, end)\<close>; a negative \<open>end\<close> counts from the end of the array.\<close>

definition slice_0 :: "'a list \<Rightarrow> int \<Rightarrow> 'a list" where
  "slice_0 xs e = (if e < 0 then take (nat (int (length xs) + e)) xs else take (nat e) xs)"

definition visibleKeys :: "jsval \<Rightarrow> node_state \<Rightarrow> string list" where
  "visibleKeys data st = slice_0 (Object_keys data) (displayLimit st)"

definition remaining :: "jsval \<Rightarrow> node_state \<Rightarrow> int" where
  "remaining data st = int (length (Object_keys data)) - displayLimit st"

text \<open>
  What a render puts on screen below the node's header line: the keys of the child
  nodes, and whether the two paging buttons are there.
\<close>

definition renderedChildren :: "jsval \<Rightarrow> node_state \<Rightarrow> string list" where
  "renderedChildren data st =
     (if isObject data \<and> isExpanded st \<and> \<not> isEmpty data then visibleKeys data st else [])"

definition pagingButtons :: "jsval \<Rightarrow> node_state \<Rightarrow> bool" where
  "pagingButtons data st =
     (isObject data \<and> isExpanded st \<and> \<not> isEmpty data \<and> remaining data st > 0)"

text \<open>
  The three click handlers. A click needs its control on screen: the header line of a
  container for \<^verbatim>\<open>toggleExpand\<close>, the paging buttons for \<^verbatim>\<open>showMore\<close> and \<^verbatim>\<open>showAll\<close>;
  \<open>None\<close> says that there is nothing to click.
\<close>

datatype click = ToggleExpand | ShowMore | ShowAll

definition handleClick :: "jsval \<Rightarrow> node_state \<Rightarrow> click \<Rightarrow> node_state option" where
  "handleClick data st ev =
     (case ev of
        ToggleExpand \<Rightarrow>
          if isObject data then Some (st\<lparr>isExpanded := \<not> isExpanded st\<rparr>) else None
      | ShowMore \<Rightarrow>
          if pagingButtons data st
          then Some (st\<lparr>displayLimit := displayLimit st + ITEMS_PER_PAGE\<rparr>) else None
      | ShowAll \<Rightarrow>
          if pagingButtons data st
          then Some (st\<lparr>displayLimit := int (length (Object_keys data))\<rparr>) else None)"

text \<open>A sequence of clicks on one node, from a given state.\<close>

fun clicks :: "jsval \<Rightarrow> node_state \<Rightarrow> click list \<Rightarrow> node_state option" where
  "clicks data st [] = Some st"
| "clicks data st (ev # evs) =
     (case handleClick data st ev of None \<Rightarrow> None | Some st' \<Rightarrow> clicks data st' evs)"

section \<open>An engine for closed instances\<close>

text \<open>
  The theorems below hold for every engine. Their closed instances need one: this one
  rejects every text but \<^verbatim>\<open>null\<close>, and finds nothing on a prototype chain.
\<close>

definition sampleEngine :: engine where
  "sampleEngine =
     \<lparr>JSON_parse = (\<lambda>v. if v = JStr ''null'' then Inr JNull
                         else Inl ''Unexpected token in JSON''),
      Number_toString = (\<lambda>r. ''0.5''),
      inherited_stringVal = (\<lambda>item k. []),
      trim_TypeError_message = (\<lambda>v. ''csv.trim is not a function''),
      toPrimitive_TypeError_message = (\<lambda>v. ''Cannot convert object to primitive value'')\<rparr>"

text \<open>A mapping with 120 keys, for the closed instance of the paging theorem.\<close>

definition mapping120 :: jsval where
  "mapping120 = JObj (map (\<lambda>n. (natToString n, JNum (Finite (of_nat n)))) [0..<120])"

section \<open>Notions of the specification\<close>

text \<open>
  The specification's "element that is itself a mapping": an object that is not an
  array.
\<close>

definition isMapping :: "jsval \<Rightarrow> bool" where
  "isMapping v = (case v of JObj _ \<Rightarrow> True | _ \<Rightarrow> False)"

text \<open>
  The scan of \<^verbatim>\<open>jsonToCsv\<close>: the keys in the order in which the two nested
  \<^verbatim>\<open>forEach\<close> visit them, and the position at which a key is first met in a scan.
\<close>

definition keyScan :: "jsval list \<Rightarrow> string list" where
  "keyScan items = concat (map Object_keys (filter isObjectNotNull items))"

definition firstIndex :: "'a list \<Rightarrow> 'a \<Rightarrow> nat" where
  "firstIndex xs x = length (takeWhile (\<lambda>y. y \<noteq> x) xs)"

text \<open>
  A key that a header line carries unchanged: not empty, free of commas and line
  feeds, and with neither white space nor a double quote at either end.
\<close>

definition plainKey :: "string \<Rightarrow> bool" where
  "plainKey k =
     (k \<noteq> [] \<and> comma \<notin> set k \<and> LF \<notin> set k
      \<and> \<not> isWhiteSpace (hd k) \<and> \<not> isWhiteSpace (last k)
      \<and> hd k \<noteq> dquote \<and> last k \<noteq> dquote)"

text \<open>
  The shape of every field that \<^verbatim>\<open>jsonToCsv\<close> writes: a text with its quotes doubled,
  between two quotes.
\<close>

definition quoted :: "string \<Rightarrow> string" where
  "quoted sv = dquote # replace_dquote_all sv @ [dquote]"

text \<open>
  The number of lines of a text that hold a character other than white space, the
  lines being those of \<^verbatim>\<open>split(/\r?\n/)\<close>.
\<close>

definition nonblankLines :: "string \<Rightarrow> string \<Rightarrow> nat" where
  "nonblankLines cur s = length (filter (\<lambda>l. trim l \<noteq> []) (split_lines cur s))"

section \<open>The worker's replies\<close>

text \<open>
  C9. A request whose \<^verbatim>\<open>type\<close> is none of \<^verbatim>\<open>PARSE\<close>, \<^verbatim>\<open>JSON_TO_CSV\<close> and \<^verbatim>\<open>CSV_TO_JSON\<close>
  falls through the \<^verbatim>\<open>switch\<close>: the worker posts one message, a \<^verbatim>\<open>SUCCESS\<close> with the
  request's id whose \<^verbatim>\<open>result\<close> is \<^verbatim>\<open>undefined\<close>, and no error.
\<close>

theorem unknown_operation_replies_success:
  assumes "msg_type req \<noteq> JStr ''PARSE''"
      and "msg_type req \<noteq> JStr ''JSON_TO_CSV''"
      and "msg_type req \<noteq> JStr ''CSV_TO_JSON''"
  shows "onmessage eng req = [SUCCESS (msg_id req) JUndefined]"
  using assms by (simp add: onmessage_def switch_type_def)

theorem unknown_operation_replies_success_witness:
  "onmessage sampleEngine
     \<lparr>msg_type = JStr ''FORMAT'', msg_data = JStr ''{}'', msg_id = JNum (Finite 17)\<rparr>
   = [SUCCESS (JNum (Finite 17)) JUndefined]"
  using unknown_operation_replies_success
    [of "\<lparr>msg_type = JStr ''FORMAT'', msg_data = JStr ''{}'', msg_id = JNum (Finite 17)\<rparr>"
        sampleEngine]
  by simp

text \<open>
  C4. A \<^verbatim>\<open>PARSE\<close> request on which \<^verbatim>\<open>JSON.parse\<close> throws is answered by exactly one
  message: an \<^verbatim>\<open>ERROR\<close> with the request's id carrying the message of the error thrown;
  no \<^verbatim>\<open>SUCCESS\<close> is posted. The message is the engine's: it is not empty when the
  engine's message is not.
\<close>

theorem parse_failure_replies_error_once:
  assumes "msg_type req = JStr ''PARSE''"
      and "JSON_parse eng (msg_data req) = Inl message"
      and "message \<noteq> []"
  shows "(\<exists>m. m \<noteq> [] \<and> onmessage eng req = [ERROR (msg_id req) m])
         \<and> onmessage eng req = [ERROR (msg_id req) message]
         \<and> length (onmessage eng req) = 1
         \<and> (\<forall>i r. SUCCESS i r \<notin> set (onmessage eng req))"
  using assms by (simp add: onmessage_def switch_type_def)

theorem parse_failure_replies_error_once_witness:
  "onmessage sampleEngine
     \<lparr>msg_type = JStr ''PARSE'', msg_data = JStr ''{bad'', msg_id = JNum (Finite 3)\<rparr>
   = [ERROR (JNum (Finite 3)) ''Unexpected token in JSON'']"
  using parse_failure_replies_error_once
    [of "\<lparr>msg_type = JStr ''PARSE'', msg_data = JStr ''{bad'', msg_id = JNum (Finite 3)\<rparr>"
        sampleEngine "''Unexpected token in JSON''"]
  by (simp add: sampleEngine_def)

section \<open>Paging in the tree renderer\<close>

lemma handleClick_displayLimit_nonneg:
  "handleClick data st ev = Some st' \<Longrightarrow> 0 \<le> displayLimit st \<Longrightarrow> 0 \<le> displayLimit st'"
  by (cases ev) (auto simp: handleClick_def ITEMS_PER_PAGE_def split: if_splits)

lemma clicks_displayLimit_nonneg:
  "clicks data st evs = Some st' \<Longrightarrow> 0 \<le> displayLimit st \<Longrightarrow> 0 \<le> displayLimit st'"
proof (induction evs arbitrary: st)
  case Nil
  then show ?case by simp
next
  case (Cons ev evs)
  then show ?case
    by (auto split: option.splits dest: handleClick_displayLimit_nonneg)
qed

lemma initialState_displayLimit_nonneg: "0 \<le> displayLimit (initialState depth)"
  by (simp add: initialState_def ITEMS_PER_PAGE_def)

lemma renderedChildren_expanded:
  "isObject data \<Longrightarrow> 0 < length (Object_keys data) \<Longrightarrow> isExpanded st \<Longrightarrow> 0 \<le> displayLimit st
   \<Longrightarrow> renderedChildren data st = take (nat (displayLimit st)) (Object_keys data)"
  by (simp add: renderedChildren_def isEmpty_def visibleKeys_def slice_0_def)

lemma showMore_reveals_page:
  assumes "handleClick data st ShowMore = Some st'" and "0 \<le> displayLimit st"
  shows "length (renderedChildren data st') =
           length (renderedChildren data st)
           + min 50 (length (Object_keys data) - length (renderedChildren data st))"
    and "renderedChildren data st = take (length (renderedChildren data st)) (renderedChildren data st')"
  using assms
  by (auto simp: handleClick_def pagingButtons_def renderedChildren_def isEmpty_def visibleKeys_def
      slice_0_def remaining_def ITEMS_PER_PAGE_def min_def split: if_splits)

lemma showAll_reveals_all:
  assumes "handleClick data st ShowAll = Some st'"
  shows "renderedChildren data st' = Object_keys data"
  using assms
  by (auto simp: handleClick_def pagingButtons_def renderedChildren_def isEmpty_def visibleKeys_def
      slice_0_def remaining_def split: if_splits)

text \<open>
  C7. For a container with \<open>N > 0\<close> children: a node below the root starts collapsed and
  shows no child; its first expansion shows the first \<open>min 50 N\<close> children. In every
  state reached by clicks, a click on "show more" shows \<open>min 50 r\<close> further children,
  \<open>r\<close> being the number not yet shown, and a click on "show all" shows all \<open>N\<close>. With
  \<open>N = 120\<close>: expanding shows 50, then "show more" 100, then "show all" 120.
\<close>

theorem tree_pagination:
  assumes "isObject data" and "length (Object_keys data) = N" and "0 < N"
  shows "(renderedChildren data (initialState (Suc d)) = []
          \<and> (\<exists>st1. clicks data (initialState (Suc d)) [ToggleExpand] = Some st1
                \<and> renderedChildren data st1 = take 50 (Object_keys data)
                \<and> length (renderedChildren data st1) = min 50 N))
       \<and> (\<forall>st'. clicks data (initialState depth) evs = Some st
                 \<and> handleClick data st ShowMore = Some st'
             \<longrightarrow> length (renderedChildren data st')
                   = length (renderedChildren data st)
                     + min 50 (N - length (renderedChildren data st)))
       \<and> (\<forall>st'. clicks data (initialState depth) evs = Some st
                 \<and> handleClick data st ShowAll = Some st'
             \<longrightarrow> renderedChildren data st' = Object_keys data
                 \<and> length (renderedChildren data st') = N)
       \<and> (N = 120 \<longrightarrow>
            map_option (\<lambda>st. length (renderedChildren data st))
              (clicks data (initialState (Suc d)) [ToggleExpand]) = Some 50
          \<and> map_option (\<lambda>st. length (renderedChildren data st))
              (clicks data (initialState (Suc d)) [ToggleExpand, ShowMore]) = Some 100
          \<and> map_option (\<lambda>st. length (renderedChildren data st))
              (clicks data (initialState (Suc d)) [ToggleExpand, ShowMore, ShowAll]) = Some 120)"
proof (intro conjI allI impI)
  show "renderedChildren data (initialState (Suc d)) = []"
    by (simp add: renderedChildren_def initialState_def)
next
  let ?st1 = "(initialState (Suc d))\<lparr>isExpanded := True\<rparr>"
  have "clicks data (initialState (Suc d)) [ToggleExpand] = Some ?st1"
    using assms(1) by (simp add: handleClick_def initialState_def)
  moreover have "renderedChildren data ?st1 = take 50 (Object_keys data)"
    using assms
    by (simp add: renderedChildren_def isEmpty_def visibleKeys_def slice_0_def initialState_def
        ITEMS_PER_PAGE_def)
  ultimately show "\<exists>st1. clicks data (initialState (Suc d)) [ToggleExpand] = Some st1
      \<and> renderedChildren data st1 = take 50 (Object_keys data)
      \<and> length (renderedChildren data st1) = min 50 N"
    using assms(2) by (auto simp: min_def)
next
  fix st'
  assume a: "clicks data (initialState depth) evs = Some st \<and> handleClick data st ShowMore = Some st'"
  then have "0 \<le> displayLimit st"
    using clicks_displayLimit_nonneg initialState_displayLimit_nonneg by blast
  with a showMore_reveals_page(1) [of data st st'] assms(2)
  show "length (renderedChildren data st')
        = length (renderedChildren data st) + min 50 (N - length (renderedChildren data st))"
    by simp
next
  fix st'
  assume a: "clicks data (initialState depth) evs = Some st \<and> handleClick data st ShowAll = Some st'"
  then show "renderedChildren data st' = Object_keys data"
    using showAll_reveals_all by blast
  with assms(2) show "length (renderedChildren data st') = N" by simp
next
  assume n: "N = 120"
  with assms show "map_option (\<lambda>st. length (renderedChildren data st))
      (clicks data (initialState (Suc d)) [ToggleExpand]) = Some 50"
    by (simp add: handleClick_def initialState_def renderedChildren_def isEmpty_def visibleKeys_def
        slice_0_def ITEMS_PER_PAGE_def)
  from n assms show "map_option (\<lambda>st. length (renderedChildren data st))
      (clicks data (initialState (Suc d)) [ToggleExpand, ShowMore]) = Some 100"
    by (simp add: handleClick_def initialState_def renderedChildren_def isEmpty_def visibleKeys_def
        slice_0_def ITEMS_PER_PAGE_def pagingButtons_def remaining_def)
  from n assms show "map_option (\<lambda>st. length (renderedChildren data st))
      (clicks data (initialState (Suc d)) [ToggleExpand, ShowMore, ShowAll]) = Some 120"
    by (simp add: handleClick_def initialState_def renderedChildren_def isEmpty_def visibleKeys_def
        slice_0_def ITEMS_PER_PAGE_def pagingButtons_def remaining_def)
qed

lemma mapping120_keys: "isObject mapping120 \<and> length (Object_keys mapping120) = 120"
  by (simp add: mapping120_def isObject_def getDataType_def Object_keys_def)

lemma mapping120_run:
  "clicks mapping120 (initialState 1) [ToggleExpand]
     = Some \<lparr>isExpanded = True, displayLimit = 50\<rparr>"
  "handleClick mapping120 \<lparr>isExpanded = True, displayLimit = 50\<rparr> ShowMore
     = Some \<lparr>isExpanded = True, displayLimit = 100\<rparr>"
  "handleClick mapping120 \<lparr>isExpanded = True, displayLimit = 50\<rparr> ShowAll
     = Some \<lparr>isExpanded = True, displayLimit = 120\<rparr>"
  using mapping120_keys
  by (simp_all add: handleClick_def initialState_def ITEMS_PER_PAGE_def pagingButtons_def
      remaining_def isEmpty_def)

theorem tree_pagination_witness:
  "length (renderedChildren mapping120 \<lparr>isExpanded = True, displayLimit = 100\<rparr>)
     = length (renderedChildren mapping120 \<lparr>isExpanded = True, displayLimit = 50\<rparr>)
       + min 50 (120 - length (renderedChildren mapping120 \<lparr>isExpanded = True, displayLimit = 50\<rparr>))
   \<and> length (renderedChildren mapping120 \<lparr>isExpanded = True, displayLimit = 120\<rparr>) = 120
   \<and> map_option (\<lambda>st. length (renderedChildren mapping120 st))
        (clicks mapping120 (initialState 1) [ToggleExpand, ShowMore, ShowAll]) = Some 120"
  using tree_pagination [of mapping120 120 0 1 "[ToggleExpand]" "\<lparr>isExpanded = True, displayLimit = 50\<rparr>"]
    mapping120_keys mapping120_run
  by simp

section \<open>Lines of the CSV text\<close>

lemma trim_eq_Nil_iff: "trim s = [] \<longleftrightarrow> (\<forall>c\<in>set s. isWhiteSpace c)"
proof
  assume "trim s = []"
  then have "dropWhile isWhiteSpace (rev (dropWhile isWhiteSpace s)) = []"
    by (simp add: trim_def)
  then have a: "\<forall>c\<in>set (dropWhile isWhiteSpace s). isWhiteSpace c"
    by (simp add: dropWhile_eq_Nil_conv)
  have "dropWhile isWhiteSpace s = []"
  proof (rule ccontr)
    assume n: "dropWhile isWhiteSpace s \<noteq> []"
    then have "\<not> isWhiteSpace (hd (dropWhile isWhiteSpace s))" by (rule hd_dropWhile)
    moreover have "hd (dropWhile isWhiteSpace s) \<in> set (dropWhile isWhiteSpace s)"
      using n by simp
    ultimately show False using a by blast
  qed
  then show "\<forall>c\<in>set s. isWhiteSpace c" by (metis dropWhile_eq_Nil_conv)
next
  assume "\<forall>c\<in>set s. isWhiteSpace c"
  then have "dropWhile isWhiteSpace s = []" by (simp add: dropWhile_eq_Nil_conv)
  then show "trim s = []" by (simp add: trim_def del: dropWhile_eq_Nil_conv)
qed

lemma split_lines_prefix: "\<exists>l ls. split_lines cur s = (cur @ l) # ls"
proof (induction cur s rule: split_lines.induct)
  case (1 cur)
  then show ?case by simp
next
  case (2 cur c cs)
  show ?case
  proof (cases "c = LF \<or> (c = CR \<and> (case cs of [] \<Rightarrow> False | d # _ \<Rightarrow> d = LF))")
    case True
    then show ?thesis by auto
  next
    case False
    with 2(3) obtain l ls where "split_lines (cur @ [c]) cs = ((cur @ [c]) @ l) # ls" by auto
    with False show ?thesis by auto
  qed
qed

lemma split_lines_not_Nil: "split_lines cur s \<noteq> []"
  using split_lines_prefix [of cur s] by auto

lemma isWhiteSpace_LF_CR: "isWhiteSpace LF" "isWhiteSpace CR"
  by (simp_all add: isWhiteSpace_def LF_def CR_def)

lemma split_lines_first_nonblank:
  assumes "s \<noteq> []" and "\<not> isWhiteSpace (hd s)"
  shows "trim (hd (split_lines [] s)) \<noteq> []"
proof -
  from assms obtain c cs where s: "s = c # cs" and c: "\<not> isWhiteSpace c"
    by (cases s) auto
  from c isWhiteSpace_LF_CR have "c \<noteq> LF" "c \<noteq> CR" by auto
  then have "split_lines [] s = split_lines [c] cs" by (simp add: s)
  moreover obtain l ls where "split_lines [c] cs = ([c] @ l) # ls"
    using split_lines_prefix by blast
  ultimately have "c \<in> set (hd (split_lines [] s))" by simp
  with c show ?thesis by (auto simp: trim_eq_Nil_iff)
qed

lemma split_lines_last_nonblank:
  "s \<noteq> [] \<Longrightarrow> \<not> isWhiteSpace (last s) \<Longrightarrow> trim (last (split_lines cur s)) \<noteq> []"
proof (induction cur s rule: split_lines.induct)
  case (1 cur)
  then show ?case by simp
next
  case (2 cur c cs)
  show ?case
  proof (cases "cs = []")
    case True
    with 2(4,5) have c: "\<not> isWhiteSpace c" by simp
    with isWhiteSpace_LF_CR have "c \<noteq> LF" "c \<noteq> CR" by auto
    with True c show ?thesis by (auto simp: trim_eq_Nil_iff)
  next
    case cs: False
    then have lcs: "\<not> isWhiteSpace (last cs)" using 2(5) by simp
    show ?thesis
    proof (cases "c = LF")
      case True
      with 2(1) cs lcs show ?thesis by (simp add: split_lines_not_Nil)
    next
      case nlf: False
      show ?thesis
      proof (cases "c = CR \<and> (case cs of [] \<Rightarrow> False | d # _ \<Rightarrow> d = LF)")
        case True
        then obtain cs' where cs': "cs = LF # cs'" by (cases cs) auto
        with lcs isWhiteSpace_LF_CR have "cs' \<noteq> []" by auto
        moreover from this cs' lcs have "\<not> isWhiteSpace (last (tl cs))" by simp
        ultimately show ?thesis
          using 2(2) nlf True cs' by (simp add: split_lines_not_Nil)
      next
        case False
        with 2(3) nlf cs lcs show ?thesis by auto
      qed
    qed
  qed
qed

lemma filter_hd_last_two:
  assumes "2 \<le> length xs" and "P (hd xs)" and "P (last xs)"
  shows "2 \<le> length (filter P xs)"
proof -
  from assms(1) obtain x ys where xs: "xs = x # ys"
    by (cases xs) auto
  with assms(1) have ys: "ys \<noteq> []" by auto
  from assms(3) xs ys have "P (last ys)" by simp
  moreover have "last ys \<in> set ys" using ys by simp
  ultimately have "filter P ys \<noteq> []" by (auto simp: filter_empty_conv)
  then have "1 \<le> length (filter P ys)" by (cases "filter P ys") auto
  with assms(2) xs show ?thesis by simp
qed

lemma trim_hd_last:
  assumes "trim s \<noteq> []"
  shows "\<not> isWhiteSpace (hd (trim s))" and "\<not> isWhiteSpace (last (trim s))"
proof -
  let ?d = "dropWhile isWhiteSpace s"
  let ?e = "dropWhile isWhiteSpace (rev ?d)"
  from assms have e: "?e \<noteq> []" by (simp add: trim_def)
  have d: "?d \<noteq> []"
  proof
    assume "?d = []"
    then have "?e = []" by (simp del: dropWhile_eq_Nil_conv)
    with e show False by simp
  qed
  have "last (trim s) = hd ?e" using e by (simp add: trim_def last_rev)
  moreover have "\<not> isWhiteSpace (hd ?e)" using e by (rule hd_dropWhile)
  ultimately show "\<not> isWhiteSpace (last (trim s))" by simp
  have "rev ?d = takeWhile isWhiteSpace (rev ?d) @ ?e" by simp
  then have "last (rev ?d) = last ?e" using e by (metis last_appendR)
  then have "hd (trim s) = hd ?d" using d e by (simp add: trim_def hd_rev last_rev)
  moreover have "\<not> isWhiteSpace (hd ?d)" using d by (rule hd_dropWhile)
  ultimately show "\<not> isWhiteSpace (hd (trim s))" by simp
qed

lemma two_lines_two_nonblank:
  assumes "2 \<le> length (split_lines [] (trim csv))"
  shows "2 \<le> length (filter (\<lambda>l. trim l \<noteq> []) (split_lines [] (trim csv)))"
proof -
  have ne: "trim csv \<noteq> []"
  proof
    assume "trim csv = []"
    with assms show False by simp
  qed
  show ?thesis
    using assms split_lines_first_nonblank [OF ne] split_lines_last_nonblank [OF ne]
      trim_hd_last [OF ne]
    by (intro filter_hd_last_two) auto
qed

lemma filter_nonblank_le:
  "length (filter (\<lambda>l. trim l \<noteq> []) ls) \<le> length (filter (\<lambda>l. l \<noteq> []) ls)"
proof (induction ls)
  case Nil
  then show ?case by simp
next
  case (Cons l ls)
  have "trim l \<noteq> [] \<Longrightarrow> l \<noteq> []" by (auto simp: trim_eq_Nil_iff)
  with Cons show ?case by auto
qed

lemma nonblank_append:
  "trim (a @ b) \<noteq> [] \<longleftrightarrow> trim a \<noteq> [] \<or> trim b \<noteq> []"
  by (auto simp: trim_eq_Nil_iff)

lemma split_lines_pre:
  "split_lines (pre @ cur) s = (pre @ hd (split_lines cur s)) # tl (split_lines cur s)"
proof (induction cur s rule: split_lines.induct)
  case (1 cur)
  then show ?case by simp
next
  case (2 cur c cs)
  show ?case
  proof (cases "c = LF \<or> (c = CR \<and> (case cs of [] \<Rightarrow> False | d # _ \<Rightarrow> d = LF))")
    case True
    then show ?thesis by auto
  next
    case False
    with 2(3) show ?thesis by auto
  qed
qed

lemma nonblankLines_cur:
  "nonblankLines cur s
     = (if trim (cur @ hd (split_lines [] s)) \<noteq> [] then 1 else 0)
       + length (filter (\<lambda>l. trim l \<noteq> []) (tl (split_lines [] s)))"
  using split_lines_pre [of cur "[]" s] by (simp add: nonblankLines_def)

lemma nonblankLines_drop_first:
  assumes "isWhiteSpace c"
  shows "nonblankLines cur s \<le> nonblankLines cur (c # s)"
proof (cases "c = LF \<or> (c = CR \<and> (case s of [] \<Rightarrow> False | d # _ \<Rightarrow> d = LF))")
  case True
  then consider "c = LF" | "c = CR" "c \<noteq> LF" "\<exists>s'. s = LF # s'"
    by (cases s) auto
  then show ?thesis
  proof cases
    case 1
    have "nonblankLines cur (c # s)
            = (if trim cur \<noteq> [] then 1 else 0) + nonblankLines [] s"
      using 1 by (simp add: nonblankLines_def)
    also have "nonblankLines [] s
            = (if trim (hd (split_lines [] s)) \<noteq> [] then 1 else 0)
              + length (filter (\<lambda>l. trim l \<noteq> []) (tl (split_lines [] s)))"
      using nonblankLines_cur [of "[]" s] by simp
    finally show ?thesis
      unfolding nonblankLines_cur [of cur s] by (simp add: nonblank_append)
  next
    case 2
    then obtain s' where s: "s = LF # s'" by blast
    with 2 show ?thesis by (simp add: nonblankLines_def)
  qed
next
  case False
  then have "split_lines cur (c # s) = split_lines (cur @ [c]) s" by auto
  then have "nonblankLines cur (c # s) = nonblankLines (cur @ [c]) s"
    by (simp add: nonblankLines_def)
  moreover have "trim ((cur @ [c]) @ l) \<noteq> [] \<longleftrightarrow> trim (cur @ l) \<noteq> []" for l
    using assms by (auto simp: trim_eq_Nil_iff)
  ultimately show ?thesis
    unfolding nonblankLines_cur [of cur s] nonblankLines_cur [of "cur @ [c]" s] by simp
qed

lemma nonblankLines_dropWhile:
  "nonblankLines cur (dropWhile isWhiteSpace s) \<le> nonblankLines cur s"
proof (induction s)
  case Nil
  then show ?case by simp
next
  case (Cons c s)
  show ?case
  proof (cases "isWhiteSpace c")
    case True
    with Cons nonblankLines_drop_first [OF True, of cur s] show ?thesis by simp
  next
    case False
    then show ?thesis by simp
  qed
qed

lemma nonblankLines_drop_last:
  "isWhiteSpace c \<Longrightarrow> nonblankLines cur s \<le> nonblankLines cur (s @ [c])"
proof (induction cur s rule: split_lines.induct)
  case (1 cur)
  then show ?case
    by (auto simp: nonblankLines_def trim_eq_Nil_iff)
next
  case (2 cur d cs)
  show ?case
  proof (cases "d = LF")
    case True
    with 2(1) [OF True] 2(4) show ?thesis by (simp add: nonblankLines_def)
  next
    case nlf: False
    show ?thesis
    proof (cases "d = CR \<and> (case cs of [] \<Rightarrow> False | e # _ \<Rightarrow> e = LF)")
      case True
      then obtain cs' where cs: "cs = LF # cs'" by (cases cs) auto
      with 2(2) [OF nlf True] 2(4) nlf True show ?thesis by (simp add: nonblankLines_def)
    next
      case False
      show ?thesis
      proof (cases "d = CR \<and> cs = [] \<and> c = LF")
        case True
        then show ?thesis
          using nlf isWhiteSpace_LF_CR by (auto simp: nonblankLines_def trim_eq_Nil_iff)
      next
        case n: False
        have m: "\<not> (d = CR \<and> (case cs @ [c] of [] \<Rightarrow> False | e # _ \<Rightarrow> e = LF))"
          using False n by (cases cs) auto
        have "split_lines cur ((d # cs) @ [c]) = split_lines (cur @ [d]) (cs @ [c])"
          using nlf m by (cases "d = CR") auto
        moreover have "split_lines cur (d # cs) = split_lines (cur @ [d]) cs"
          using nlf False by (cases "d = CR") auto
        ultimately show ?thesis
          using 2(3) [OF nlf False] 2(4) by (simp add: nonblankLines_def)
      qed
    qed
  qed
qed

lemma nonblankLines_drop_trailing:
  "nonblankLines cur (rev (dropWhile isWhiteSpace (rev s))) \<le> nonblankLines cur s"
proof (induction s rule: rev_induct)
  case Nil
  then show ?case by simp
next
  case (snoc c s)
  show ?case
  proof (cases "isWhiteSpace c")
    case True
    with snoc nonblankLines_drop_last [OF True, of cur s] show ?thesis by simp
  next
    case False
    then show ?thesis by simp
  qed
qed

lemma nonblankLines_trim: "nonblankLines [] (trim csv) \<le> nonblankLines [] csv"
proof -
  have "nonblankLines [] (trim csv) \<le> nonblankLines [] (dropWhile isWhiteSpace csv)"
    unfolding trim_def by (rule nonblankLines_drop_trailing)
  also have "\<dots> \<le> nonblankLines [] csv" by (rule nonblankLines_dropWhile)
  finally show ?thesis .
qed

text \<open>
  C8. \<^verbatim>\<open>csvToJson\<close> returns the empty array whenever the text has fewer than two
  non-empty lines: whether the lines are those of the trimmed text or of the text as
  given, and whether a line counts as non-empty when it has a character or only when
  it has one that is not white space. So it does for \<^verbatim>\<open>only one line\<close>. It is a total
  function of the text: no step of it can throw on a string.
\<close>

theorem csvToJson_fewer_than_two_lines:
  "(length (filter (\<lambda>l. l \<noteq> []) (split_lines [] (trim csv))) < 2 \<longrightarrow> csvToJson csv = [])
   \<and> (length (filter (\<lambda>l. trim l \<noteq> []) (split_lines [] (trim csv))) < 2 \<longrightarrow> csvToJson csv = [])
   \<and> (length (filter (\<lambda>l. trim l \<noteq> []) (split_lines [] csv)) < 2 \<longrightarrow> csvToJson csv = [])
   \<and> csvToJson ''only one line'' = []"
proof (intro conjI impI)
  assume "length (filter (\<lambda>l. trim l \<noteq> []) (split_lines [] (trim csv))) < 2"
  with two_lines_two_nonblank [of csv] have "length (split_lines [] (trim csv)) < 2"
    by linarith
  then show "csvToJson csv = []" by (simp add: csvToJson_def)
next
  assume "length (filter (\<lambda>l. l \<noteq> []) (split_lines [] (trim csv))) < 2"
  with filter_nonblank_le [of "split_lines [] (trim csv)"] two_lines_two_nonblank [of csv]
  have "length (split_lines [] (trim csv)) < 2" by linarith
  then show "csvToJson csv = []" by (simp add: csvToJson_def)
next
  assume "length (filter (\<lambda>l. trim l \<noteq> []) (split_lines [] csv)) < 2"
  with nonblankLines_trim [of csv] two_lines_two_nonblank [of csv]
  have "length (split_lines [] (trim csv)) < 2"
    unfolding nonblankLines_def by linarith
  then show "csvToJson csv = []" by (simp add: csvToJson_def)
next
  show "csvToJson ''only one line'' = []"
    by (simp add: csvToJson_def trim_def isWhiteSpace_def LF_def CR_def)
qed

theorem csvToJson_fewer_than_two_lines_witness:
  "csvToJson (''name,age'' @ [LF, LF]) = []"
  using csvToJson_fewer_than_two_lines [of "''name,age'' @ [LF, LF]"]
  by (simp add: trim_def isWhiteSpace_def LF_def CR_def)

section \<open>Rounding to a double\<close>

lemma bitLength_bounds:
  "0 < n \<Longrightarrow> 2 ^ (bitLength n - 1) \<le> n \<and> n < 2 ^ bitLength n"
proof (induction n rule: bitLength.induct)
  case (1 n)
  show ?case
  proof (cases "n div 2 = 0")
    case True
    with 1(2) have "n = 1" by (simp add: div_eq_0_iff)
    then show ?thesis by (simp add: bitLength.simps)
  next
    case False
    then have h: "0 < n div 2" by simp
    with 1 have ih: "2 ^ (bitLength (n div 2) - 1) \<le> n div 2 \<and> n div 2 < 2 ^ bitLength (n div 2)"
      by simp
    have b: "bitLength n = Suc (bitLength (n div 2))"
      using 1(2) by (subst bitLength.simps) simp
    have pos: "0 < bitLength (n div 2)"
      using h by (subst bitLength.simps) simp
    then obtain m where m: "bitLength (n div 2) = Suc m" by (cases "bitLength (n div 2)") auto
    from ih have "2 * 2 ^ m \<le> n" "n < 2 * 2 ^ Suc m" unfolding m by simp_all linarith+
    then show ?thesis unfolding b m by simp
  qed
qed

lemma bitLength_pos: "0 < n \<Longrightarrow> 0 < bitLength n"
  by (subst bitLength.simps) simp

lemma bitLength_one: "bitLength (Suc 0) = Suc 0"
  by (simp add: bitLength.simps)

lemma roundHalfEven_one: "roundHalfEven a (Suc 0) = a"
  by (simp add: roundHalfEven_def)

lemma roundHalfEven_ge: "a div b \<le> roundHalfEven a b"
  by (simp add: roundHalfEven_def Let_def)

lemma floorLog2_integer:
  assumes "0 < p"
  shows "floorLog2 p (Suc 0) = int (bitLength p) - 1"
  using bitLength_bounds [OF assms] bitLength_pos [OF assms]
  by (simp add: floorLog2_def bitLength_one Let_def nat_diff_distrib)

text \<open>An integer of magnitude up to \<open>2^53\<close> is a double.\<close>

lemma toDouble_safe:
  assumes "p \<le> 2 ^ 53"
  shows "toDouble p 1 = Finite (of_nat p)"
proof (cases "p = 0")
  case True
  then show ?thesis by (simp add: toDouble_def)
next
  case False
  then have pos: "0 < p" by simp
  from bitLength_bounds [OF pos] have lo: "2 ^ (bitLength p - 1) \<le> p" by simp
  have fl: "floorLog2 p (Suc 0) = int (bitLength p) - 1"
    using pos by (rule floorLog2_integer)
  have ble: "bitLength p \<le> 54"
  proof (rule ccontr)
    assume "\<not> bitLength p \<le> 54"
    then have "54 \<le> bitLength p - 1" by simp
    then have "(2::nat) ^ 54 \<le> 2 ^ (bitLength p - 1)" by (intro power_increasing) simp_all
    with lo assms show False by simp
  qed
  show ?thesis
  proof (cases "bitLength p = 54")
    case True
    with lo assms have "p = 2 ^ 53" by simp
    then show ?thesis
      using fl True by (simp add: toDouble_def roundHalfEven_def)
  next
    case n54: False
    show ?thesis
    proof (cases "bitLength p = 53")
      case True
      have "p < 2 ^ 1024" using assms by (rule le_less_trans) simp
      with True show ?thesis using fl False by (simp add: toDouble_def roundHalfEven_one)
    next
      case b53: False
      with n54 ble have "bitLength p < 53" by simp
      then have e: "max (int (bitLength p) - 1) (- 1022) - 52 < 0" by simp
      show ?thesis
        using fl e False by (simp add: toDouble_def roundHalfEven_one Let_def)
    qed
  qed
qed

text \<open>A value of \<open>2^1024\<close> or more is beyond the doubles: it becomes \<open>Infinity\<close>.\<close>

lemma toDouble_overflow:
  assumes "2 ^ 1024 \<le> p"
  shows "toDouble p 1 = PosInfinity"
proof -
  have pos: "0 < p" using assms by (rule less_le_trans [rotated]) simp
  from bitLength_bounds [OF pos]
  have lo: "2 ^ (bitLength p - 1) \<le> p" and hi: "p < 2 ^ bitLength p" by simp_all
  have "(2::nat) ^ 1024 < 2 ^ bitLength p" using assms hi by linarith
  then have bl: "1024 < bitLength p" by (intro power_less_imp_less_exp [of 2]) simp_all
  define e where "e = bitLength p - 53"
  have be: "bitLength p - 1 = e + 52" and e972: "972 \<le> e" using bl by (simp_all add: e_def)
  have fl: "floorLog2 p (Suc 0) = int e + 52"
    using floorLog2_integer [OF pos] bl by (simp add: e_def)
  have "2 ^ 52 * 2 ^ e \<le> p" using lo unfolding be by (simp add: power_add mult.commute)
  then have "2 ^ 52 \<le> p div 2 ^ e" by (simp add: less_eq_div_iff_mult_less_eq)
  with roundHalfEven_ge [of p "2 ^ e"] have n: "2 ^ 52 \<le> roundHalfEven p (2 ^ e)" by linarith
  have "(2::nat) ^ 1024 = 2 ^ 52 * 2 ^ 972" by simp
  also have "\<dots> \<le> 2 ^ 52 * 2 ^ e" using e972 by (intro mult_le_mono2 power_increasing) simp_all
  also have "\<dots> \<le> roundHalfEven p (2 ^ e) * 2 ^ e" using n by (rule mult_le_mono1)
  finally have big: "2 ^ 1024 \<le> roundHalfEven p (2 ^ e) * 2 ^ e" .
  show ?thesis
    using pos fl big by (simp add: toDouble_def Let_def)
qed

text \<open>A value below \<open>2^(-1075)\<close>, half the least positive double, becomes 0.\<close>

lemma toDouble_underflow:
  assumes "p * 2 ^ 1075 < q"
  shows "toDouble p q = Finite 0"
proof (cases "p = 0")
  case True
  then show ?thesis by (simp add: toDouble_def)
next
  case False
  then have pos: "0 < p" by simp
  have qpos: "0 < q" using assms by (cases "q = 0") simp_all
  from bitLength_bounds [OF pos] have lo: "2 ^ (bitLength p - 1) \<le> p" by simp
  from bitLength_bounds [OF qpos] have hi: "q < 2 ^ bitLength q" by simp
  have "2 ^ (bitLength p - 1) * 2 ^ 1075 \<le> p * 2 ^ 1075" using lo by (rule mult_le_mono1)
  with assms hi have "(2::nat) ^ (bitLength p - 1 + 1075) < 2 ^ bitLength q"
    by (simp add: power_add)
  then have "bitLength p - 1 + 1075 < bitLength q" by (simp add: power_strict_increasing_iff)
  then have k: "int (bitLength p) - int (bitLength q) < - 1074" by linarith
  have "floorLog2 p q \<le> int (bitLength p) - int (bitLength q)"
    by (simp add: floorLog2_def Let_def)
  with k have e: "max (floorLog2 p q) (- 1022) - 52 = - 1074" by simp
  have "2 * (p * 2 ^ 1074) < q" using assms by simp
  then have "roundHalfEven (p * 2 ^ 1074) q = 0"
    by (simp add: roundHalfEven_def Let_def)
  then show ?thesis
    using False e by (simp add: toDouble_def Let_def)
qed

lemmas double_eval = toDouble_def floorLog2_def roundHalfEven_def bitLength.simps

section \<open>Trimming, unquoting and reading digits\<close>

lemma trim_id:
  assumes "s \<noteq> []" and "\<not> isWhiteSpace (hd s)" and "\<not> isWhiteSpace (last s)"
  shows "trim s = s"
proof -
  have a: "dropWhile isWhiteSpace s = s"
    using assms(1,2) by (cases s) auto
  have "rev s \<noteq> []" "\<not> isWhiteSpace (hd (rev s))"
    using assms(1,3) by (simp_all add: hd_rev)
  then have "dropWhile isWhiteSpace (rev s) = rev s"
    by (cases "rev s") auto
  with a show ?thesis by (simp add: trim_def)
qed

lemma replace_dquote_all_Cons:
  "replace_dquote_all (c # s) = (if c = dquote then [dquote, dquote] else [c]) @ replace_dquote_all s"
  by (simp add: replace_dquote_all_def)

lemma replace_dquote_all_Nil: "replace_dquote_all [] = []"
  by (simp add: replace_dquote_all_def)

lemma replace_dquote2_escaped: "replace_dquote2 (replace_dquote_all s) = s"
proof (induction s)
  case Nil
  then show ?case by (simp add: replace_dquote_all_Nil)
next
  case (Cons c s)
  show ?case
  proof (cases "c = dquote")
    case True
    with Cons show ?thesis by (simp add: replace_dquote_all_Cons)
  next
    case False
    with Cons show ?thesis
      by (cases "replace_dquote_all s") (simp_all add: replace_dquote_all_Cons)
  qed
qed

lemma dquote_not_space: "\<not> isWhiteSpace dquote"
  by (simp add: isWhiteSpace_def dquote_def)

lemma quoted_ends: "quoted sv \<noteq> []" "hd (quoted sv) = dquote" "last (quoted sv) = dquote"
  by (simp_all add: quoted_def)

lemma trim_quoted: "trim (quoted sv) = quoted sv"
  by (rule trim_id) (simp_all add: quoted_ends dquote_not_space)

lemma unquote_quoted: "unquote (quoted sv) = sv"
proof -
  have "startsWith_dquote (quoted sv)" "endsWith_dquote (quoted sv)"
    by (simp_all add: startsWith_dquote_def endsWith_dquote_def quoted_def)
  moreover have "slice_1_m1 (quoted sv) = replace_dquote_all sv"
    by (simp add: slice_1_m1_def quoted_def)
  ultimately show ?thesis
    by (simp add: unquote_def trim_quoted replace_dquote2_escaped)
qed

text \<open>\<^verbatim>\<open>trim\<close> removes the white space at both ends and nothing else.\<close>

lemma trim_spec:
  assumes "\<forall>c\<in>set ws1 \<union> set ws2. isWhiteSpace c"
      and "core = [] \<or> (\<not> isWhiteSpace (hd core) \<and> \<not> isWhiteSpace (last core))"
  shows "trim (ws1 @ core @ ws2) = core"
proof (cases "core = []")
  case True
  with assms(1) show ?thesis by (auto simp: trim_eq_Nil_iff)
next
  case False
  with assms(2) have h: "\<not> isWhiteSpace (hd core)" and l: "\<not> isWhiteSpace (last core)"
    by simp_all
  have "dropWhile isWhiteSpace (ws1 @ core @ ws2) = dropWhile isWhiteSpace (core @ ws2)"
    using assms(1) by (intro dropWhile_append2) simp
  also have "\<dots> = core @ ws2"
    using False h by (cases core) simp_all
  finally have a: "dropWhile isWhiteSpace (ws1 @ core @ ws2) = core @ ws2" .
  have "dropWhile isWhiteSpace (rev ws2 @ rev core) = dropWhile isWhiteSpace (rev core)"
    using assms(1) by (intro dropWhile_append2) simp
  also have "\<dots> = rev core"
  proof -
    obtain a r where r: "rev core = a # r" using False by (cases "rev core") auto
    have "hd (rev core) = last core" by (simp add: hd_rev)
    with r have "a = last core" by simp
    with l show ?thesis unfolding r by simp
  qed
  finally show ?thesis by (simp add: trim_def a)
qed

text \<open>
  A field that is a quoted text, with white space around it or not, gives back the
  text; any other field gives what is left of it after trimming.
\<close>

lemma unquote_spaced_quoted:
  assumes "\<forall>c\<in>set ws1 \<union> set ws2. isWhiteSpace c"
  shows "unquote (ws1 @ quoted sv @ ws2) = sv"
proof -
  have "trim (ws1 @ quoted sv @ ws2) = quoted sv"
    using assms by (intro trim_spec) (simp_all add: quoted_ends dquote_not_space)
  moreover have "unquote (quoted sv) = sv" by (rule unquote_quoted)
  ultimately show ?thesis by (simp add: unquote_def trim_quoted)
qed

lemma unquote_unquoted:
  assumes "\<forall>c\<in>set ws1 \<union> set ws2. isWhiteSpace c"
      and "core = [] \<or> (\<not> isWhiteSpace (hd core) \<and> \<not> isWhiteSpace (last core))"
      and "core = [] \<or> hd core \<noteq> dquote \<or> last core \<noteq> dquote"
  shows "unquote (ws1 @ core @ ws2) = core"
proof -
  have t: "trim (ws1 @ core @ ws2) = core" using assms(1,2) by (rule trim_spec)
  have "\<not> (startsWith_dquote core \<and> endsWith_dquote core)"
    using assms(3) by (cases core) (auto simp: startsWith_dquote_def endsWith_dquote_def)
  then show ?thesis by (auto simp: unquote_def t Let_def)
qed

text \<open>\<^verbatim>\<open>Number\<close> reads the decimal digits of a number back as that number.\<close>

lemma digit_char:
  assumes "d < 10"
  shows "hexDigitValue (''0123456789'' ! d) = Some d" and "isDigit (''0123456789'' ! d)"
proof -
  from assms have "d = 0 \<or> d = 1 \<or> d = 2 \<or> d = 3 \<or> d = 4 \<or> d = 5 \<or> d = 6 \<or> d = 7 \<or> d = 8 \<or> d = 9"
    by arith
  then show "hexDigitValue (''0123456789'' ! d) = Some d" and "isDigit (''0123456789'' ! d)"
    by (auto simp: hexDigitValue_def isDigit_def)
qed

lemma digitsValue_acc_append:
  "digitsValue_acc radix acc (xs @ [c])
     = (case digitsValue_acc radix acc xs of
          None \<Rightarrow> None
        | Some a \<Rightarrow> (case hexDigitValue c of
                       None \<Rightarrow> None
                     | Some d \<Rightarrow> if d < radix then Some (a * radix + d) else None))"
  by (induction xs arbitrary: acc) (auto split: option.splits)

lemma natToString_digits:
  "natToString n \<noteq> [] \<and> list_all isDigit (natToString n)
   \<and> digitsValue_acc 10 0 (natToString n) = Some n"
proof (induction n rule: natToString.induct)
  case (1 n)
  show ?case
  proof (cases "n < 10")
    case True
    then show ?thesis
      by (subst (1 2 3) natToString.simps) (simp add: digit_char)
  next
    case False
    have d: "n mod 10 < 10" by simp
    from 1 [OF False] False show ?thesis
      by (subst (1 2 3) natToString.simps)
        (simp add: digitsValue_acc_append digit_char [OF d])
  qed
qed

lemma Number_natToString:
  assumes "n \<le> 2 ^ 53"
  shows "Number (natToString n) = Finite (of_nat n)"
proof -
  let ?s = "natToString n"
  from natToString_digits [of n]
  have ne: "?s \<noteq> []" and dig: "list_all isDigit ?s" and v: "digitsValue 10 ?s = Some n"
    by (simp_all add: digitsValue_def)
  have nows: "\<not> isWhiteSpace c" if "isDigit c" for c
    using that by (auto simp: isDigit_def isWhiteSpace_def)
  have hdl: "isDigit (hd ?s)" "isDigit (last ?s)"
    using ne dig by (simp_all add: list_all_iff)
  have t: "trim ?s = ?s"
    using ne hdl nows by (intro trim_id) auto
  have nd: "parseNonDecimal ?s = None"
  proof (cases ?s)
    case Nil
    with ne show ?thesis by simp
  next
    case (Cons z r)
    show ?thesis
    proof (cases r)
      case Nil
      with Cons show ?thesis by (simp add: parseNonDecimal_def)
    next
      case (Cons p ds)
      with \<open>?s = z # r\<close> dig have "isDigit p" by simp
      then have "p \<noteq> CHR ''b''" "p \<noteq> CHR ''B''" "p \<noteq> CHR ''o''" "p \<noteq> CHR ''O''"
        "p \<noteq> CHR ''x''" "p \<noteq> CHR ''X''"
        by (auto simp: isDigit_def)
      with Cons \<open>?s = z # r\<close> show ?thesis by (simp add: parseNonDecimal_def)
    qed
  qed
  have tw: "takeWhile isDigit ?s = ?s" "dropWhile isDigit ?s = []"
    using dig by (simp_all add: list_all_iff)
  have "hd ?s \<noteq> CHR ''I''" using hdl(1) by (auto simp: isDigit_def)
  then have ni: "?s \<noteq> ''Infinity''" by auto
  have pu: "parseUnsignedDecimal ?s = Finite (of_nat n)"
    unfolding parseUnsignedDecimal_def Let_def tw
    using ni v toDouble_safe [OF assms] by simp
  obtain c cs where s: "?s = c # cs" using ne by (cases ?s) auto
  with hdl(1) have "c \<noteq> CHR ''+''" "c \<noteq> CHR ''-''" by (auto simp: isDigit_def)
  then show ?thesis
    using t nd pu ne s by (simp add: Number_def)
qed

section \<open>Rows of \<^verbatim>\<open>csvToJson\<close>\<close>

lemma lines_loop_eq:
  "lines_loop hs ls result
     = result @ map (lineObject hs) (filter (\<lambda>l. l \<noteq> []) (map trim ls))"
  by (induction ls arbitrary: result) (simp_all add: Let_def)

lemma csvToJson_rows:
  "csvToJson csv =
     (let lines = split_lines [] (trim csv)
      in if length lines < 2 then []
         else map (lineObject (parseHeaders (lines ! 0)))
                (filter (\<lambda>l. l \<noteq> []) (map trim (drop 1 lines))))"
  by (simp add: csvToJson_def lines_loop_eq Let_def)

lemma headers_forEach_foldl:
  "headers_forEach hs i values obj
     = foldl (\<lambda>obj (h, raw). assignProp obj h (fieldValue raw)) obj (zip hs (drop i values))"
proof (induction hs arbitrary: i obj)
  case Nil
  then show ?case by simp
next
  case (Cons h hs)
  show ?case
  proof (cases "i < length values")
    case True
    then have "drop i values = values ! i # drop (Suc i) values"
      by (simp add: Cons_nth_drop_Suc)
    with True Cons show ?thesis by simp
  next
    case False
    with Cons show ?thesis by simp
  qed
qed

lemma set_insertProp: "set (insertProp k v ps) = insert (k, v) (set ps)"
  by (induction ps) (auto split: option.splits if_splits)

lemma map_of_insertProp:
  "map_of ps k = None \<Longrightarrow> map_of (insertProp k v ps) = (map_of ps)(k \<mapsto> v)"
  by (induction ps) (auto split: option.splits if_splits)

lemma map_of_update_existing:
  "map_of (map (\<lambda>(k', v'). (k', if k' = k then v else v')) ps) k''
     = (if k'' = k then map_option (\<lambda>_. v) (map_of ps k) else map_of ps k'')"
  by (induction ps) auto

lemma map_of_setOwn: "map_of (setOwn k v ps) = (map_of ps)(k \<mapsto> v)"
proof (cases "map_of ps k = None")
  case True
  then show ?thesis by (simp add: setOwn_def map_of_insertProp)
next
  case False
  then show ?thesis by (auto simp: setOwn_def map_of_update_existing fun_eq_iff)
qed

lemma snd_set_setOwn: "snd ` set (setOwn k v ps) \<subseteq> insert v (snd ` set ps)"
  by (auto simp: setOwn_def set_insertProp split: if_splits)

lemma map_of_assignProp:
  "k \<noteq> ''__proto__'' \<Longrightarrow>
   map_of (ownProps (assignProp obj h v)) k = (if h = k then Some v else map_of (ownProps obj) k)"
  by (auto simp: assignProp_def map_of_setOwn)

lemma dom_assignProp:
  "dom (map_of (ownProps (assignProp obj h v))) \<subseteq> insert h (dom (map_of (ownProps obj)))"
  by (auto simp: assignProp_def map_of_setOwn split: if_splits)

lemma snd_set_assignProp:
  "snd ` set (ownProps (assignProp obj h v)) \<subseteq> insert v (snd ` set (ownProps obj))"
  using snd_set_setOwn [of h v "ownProps obj"] by (auto simp: assignProp_def)

lemma map_of_foldl_assignProp:
  assumes "k \<noteq> ''__proto__''"
  shows "map_of (ownProps (foldl (\<lambda>obj (h, raw). assignProp obj h (f raw)) obj kvs)) k
           = (case map_of (rev (map (\<lambda>(h, raw). (h, f raw)) kvs)) k of
                Some v \<Rightarrow> Some v
              | None \<Rightarrow> map_of (ownProps obj) k)"
proof (induction kvs arbitrary: obj)
  case Nil
  then show ?case by simp
next
  case (Cons kv kvs)
  obtain h raw where kv: "kv = (h, raw)" by (cases kv)
  show ?case
    using assms by (simp add: kv Cons map_of_assignProp map_add_def split: option.splits)
qed

lemma dom_foldl_assignProp:
  "dom (map_of (ownProps (foldl (\<lambda>obj (h, raw). assignProp obj h (f raw)) obj kvs)))
     \<subseteq> dom (map_of (ownProps obj)) \<union> fst ` set kvs"
proof (induction kvs arbitrary: obj)
  case Nil
  then show ?case by simp
next
  case (Cons kv kvs)
  let ?F = "\<lambda>obj (h, raw). assignProp obj h (f raw)"
  obtain h raw where kv: "kv = (h, raw)" by (cases kv)
  have a: "dom (map_of (ownProps (foldl ?F (assignProp obj h (f raw)) kvs)))
             \<subseteq> dom (map_of (ownProps (assignProp obj h (f raw)))) \<union> fst ` set kvs"
    by (rule Cons)
  have b: "foldl ?F obj (kv # kvs) = foldl ?F (assignProp obj h (f raw)) kvs"
    by (simp add: kv)
  have c: "fst ` set (kv # kvs) = insert h (fst ` set kvs)"
    by (simp add: kv)
  show ?case
    unfolding b c using a dom_assignProp [of obj h "f raw"] by blast
qed

lemma snd_set_foldl_assignProp:
  "snd ` set (ownProps (foldl (\<lambda>obj (h, raw). assignProp obj h (f raw)) obj kvs))
     \<subseteq> snd ` set (ownProps obj) \<union> f ` snd ` set kvs"
proof (induction kvs arbitrary: obj)
  case Nil
  then show ?case by simp
next
  case (Cons kv kvs)
  let ?F = "\<lambda>obj (h, raw). assignProp obj h (f raw)"
  obtain h raw where kv: "kv = (h, raw)" by (cases kv)
  have a: "snd ` set (ownProps (foldl ?F (assignProp obj h (f raw)) kvs))
             \<subseteq> snd ` set (ownProps (assignProp obj h (f raw))) \<union> f ` snd ` set kvs"
    by (rule Cons)
  have b: "foldl ?F obj (kv # kvs) = foldl ?F (assignProp obj h (f raw)) kvs"
    by (simp add: kv)
  have c: "f ` snd ` set (kv # kvs) = insert (f raw) (f ` snd ` set kvs)"
    by (simp add: kv)
  show ?case
    unfolding b c using a snd_set_assignProp [of obj h "f raw"] by blast
qed

lemma lineObject_eq:
  "lineObject hs line
     = JObj (ownProps (foldl (\<lambda>obj (h, raw). assignProp obj h (fieldValue raw)) emptyObject
                         (zip hs (split_splitRegex [] line))))"
  by (simp add: lineObject_def headers_forEach_foldl)

lemma autoConvert_not_empty_string: "autoConvert val \<noteq> JStr []"
  by (simp add: autoConvert_def)

lemma of_char_toLowerChar:
  "(of_char (toLowerChar c) :: nat)
     = (if (65 \<le> (of_char c :: nat) \<and> (of_char c :: nat) \<le> 90)
           \<or> (192 \<le> (of_char c :: nat) \<and> (of_char c :: nat) \<le> 222 \<and> (of_char c :: nat) \<noteq> 215)
        then of_char c + 32 else of_char c)"
  by (simp add: toLowerChar_def Let_def)

lemma toLowerChar_eq_iff:
  assumes "97 \<le> (of_char d :: nat)" and "(of_char d :: nat) \<le> 122"
  shows "toLowerChar c = d \<longleftrightarrow> c = d \<or> (of_char c :: nat) + 32 = of_char d"
proof -
  have "toLowerChar c = d \<longleftrightarrow> (of_char (toLowerChar c) :: nat) = of_char d"
    by simp
  also have "\<dots> \<longleftrightarrow> (of_char c :: nat) = of_char d \<or> (of_char c :: nat) + 32 = of_char d"
    using assms by (auto simp: of_char_toLowerChar)
  finally show ?thesis by simp
qed

lemma toLowerChar_eq_iff2:
  assumes "97 \<le> (of_char d :: nat)" and "(of_char d :: nat) \<le> 122"
      and "(of_char u :: nat) + 32 = of_char d"
  shows "toLowerChar c = d \<longleftrightarrow> c = d \<or> c = u"
proof -
  have "(of_char c :: nat) + 32 = of_char d \<longleftrightarrow> (of_char c :: nat) = of_char u"
    using assms(3) by linarith
  then show ?thesis
    using toLowerChar_eq_iff [OF assms(1,2), of c] by simp
qed

lemma toLowerChar_letters:
  "toLowerChar c = CHR ''t'' \<longleftrightarrow> c = CHR ''t'' \<or> c = CHR ''T''"
  "toLowerChar c = CHR ''r'' \<longleftrightarrow> c = CHR ''r'' \<or> c = CHR ''R''"
  "toLowerChar c = CHR ''u'' \<longleftrightarrow> c = CHR ''u'' \<or> c = CHR ''U''"
  "toLowerChar c = CHR ''e'' \<longleftrightarrow> c = CHR ''e'' \<or> c = CHR ''E''"
  "toLowerChar c = CHR ''f'' \<longleftrightarrow> c = CHR ''f'' \<or> c = CHR ''F''"
  "toLowerChar c = CHR ''a'' \<longleftrightarrow> c = CHR ''a'' \<or> c = CHR ''A''"
  "toLowerChar c = CHR ''l'' \<longleftrightarrow> c = CHR ''l'' \<or> c = CHR ''L''"
  "toLowerChar c = CHR ''s'' \<longleftrightarrow> c = CHR ''s'' \<or> c = CHR ''S''"
  by (rule toLowerChar_eq_iff2; simp)+

lemma toLowerCase_true_iff:
  "toLowerCase val = ''true'' \<longleftrightarrow>
     (\<exists>t r u e. val = [t, r, u, e] \<and> t \<in> {CHR ''t'', CHR ''T''} \<and> r \<in> {CHR ''r'', CHR ''R''}
        \<and> u \<in> {CHR ''u'', CHR ''U''} \<and> e \<in> {CHR ''e'', CHR ''E''})"
proof -
  have "toLowerCase val = ''true'' \<longleftrightarrow>
     (\<exists>t r u e. val = [t, r, u, e] \<and> toLowerChar t = CHR ''t'' \<and> toLowerChar r = CHR ''r''
        \<and> toLowerChar u = CHR ''u'' \<and> toLowerChar e = CHR ''e'')"
  proof
    assume "toLowerCase val = ''true''"
    then show "\<exists>t r u e. val = [t, r, u, e] \<and> toLowerChar t = CHR ''t'' \<and> toLowerChar r = CHR ''r''
        \<and> toLowerChar u = CHR ''u'' \<and> toLowerChar e = CHR ''e''"
      unfolding toLowerCase_def by (auto simp only: map_eq_Cons_conv map_is_Nil_conv)
  next
    assume "\<exists>t r u e. val = [t, r, u, e] \<and> toLowerChar t = CHR ''t'' \<and> toLowerChar r = CHR ''r''
        \<and> toLowerChar u = CHR ''u'' \<and> toLowerChar e = CHR ''e''"
    then show "toLowerCase val = ''true''"
      by (auto simp: toLowerCase_def)
  qed
  then show ?thesis by (simp only: toLowerChar_letters insert_iff empty_iff simp_thms)
qed

lemma toLowerCase_false_iff:
  "toLowerCase val = ''false'' \<longleftrightarrow>
     (\<exists>f a l s e. val = [f, a, l, s, e] \<and> f \<in> {CHR ''f'', CHR ''F''} \<and> a \<in> {CHR ''a'', CHR ''A''}
        \<and> l \<in> {CHR ''l'', CHR ''L''} \<and> s \<in> {CHR ''s'', CHR ''S''} \<and> e \<in> {CHR ''e'', CHR ''E''})"
proof -
  have "toLowerCase val = ''false'' \<longleftrightarrow>
     (\<exists>f a l s e. val = [f, a, l, s, e] \<and> toLowerChar f = CHR ''f'' \<and> toLowerChar a = CHR ''a''
        \<and> toLowerChar l = CHR ''l'' \<and> toLowerChar s = CHR ''s'' \<and> toLowerChar e = CHR ''e'')"
  proof
    assume "toLowerCase val = ''false''"
    then show "\<exists>f a l s e. val = [f, a, l, s, e] \<and> toLowerChar f = CHR ''f'' \<and> toLowerChar a = CHR ''a''
        \<and> toLowerChar l = CHR ''l'' \<and> toLowerChar s = CHR ''s'' \<and> toLowerChar e = CHR ''e''"
      unfolding toLowerCase_def by (auto simp only: map_eq_Cons_conv map_is_Nil_conv) blast
  next
    assume "\<exists>f a l s e. val = [f, a, l, s, e] \<and> toLowerChar f = CHR ''f'' \<and> toLowerChar a = CHR ''a''
        \<and> toLowerChar l = CHR ''l'' \<and> toLowerChar s = CHR ''s'' \<and> toLowerChar e = CHR ''e''"
    then show "toLowerCase val = ''false''"
      by (auto simp: toLowerCase_def)
  qed
  then show ?thesis by (simp only: toLowerChar_letters insert_iff empty_iff simp_thms)
qed

lemmas csv_eval =
  csvToJson_def parseHeaders_def lineObject_def fieldValue_def unquote_def autoConvert_def
  trim_def isWhiteSpace_def LF_def CR_def comma_def dquote_def
  replace_edge_dquote_def startsWith_dquote_def endsWith_dquote_def slice_1_m1_def
  lookahead_even_dquotes_def emptyObject_def assignProp_def setOwn_def
  Number_def parseNonDecimal_def parseUnsignedDecimal_def parseExponentPart_def
  parseSignedInteger_def isDigit_def digitsValue_def hexDigitValue_def isNaN_def negate_def
  scale10_def toLowerCase_true_iff toLowerCase_false_iff arrayIndex_def
  toDouble_safe toDouble_safe [unfolded One_nat_def]

lemma csvToJson_id_007:
  "csvToJson ''id\<newline>007'' = [JObj [(''id'', JNum (Finite 7))]]"
  by (simp add: csv_eval)

lemma Number_instances:
  "Number ''007'' = Finite 7"
  "Number ''-12.5e1'' = Finite (- 125)"
  "Number ''+.5'' = Finite (1 / 2)"
  "Number ''0x1F'' = Finite 31"
  "Number '' 42 '' = Finite 42"
  "Number ''0.1'' = Finite (3602879701896397 / 36028797018963968)"
  "Number ''9007199254740993'' = Finite 9007199254740992"
  "Number ''Infinity'' = PosInfinity"
  "Number ''12abc'' = NaN"
  "Number ''1 2'' = NaN"
  "Number ''.'' = NaN"
  "Number ''0b101'' = Finite 5"
  "Number ''0o17'' = Finite 15"
  "Number ''-0x1F'' = NaN"
  "Number ''5.'' = Finite 5"
  "Number ''1e'' = NaN"
  "Number ''-Infinity'' = NegInfinity"
  by (simp_all add: csv_eval double_eval)

lemma Number_out_of_range:
  "Number ''1e400'' = PosInfinity"
  "Number ''-1e400'' = NegInfinity"
  "Number ''1e-400'' = Finite 0"
  by (simp_all add: csv_eval toDouble_overflow toDouble_overflow [unfolded One_nat_def]
      toDouble_underflow)

lemma unquote_between_quotes:
  "trim raw = dquote # body @ [dquote] \<Longrightarrow> unquote raw = replace_dquote2 body"
  by (simp add: unquote_def startsWith_dquote_def endsWith_dquote_def slice_1_m1_def)

lemma unquote_lone_quote: "unquote [dquote] = []"
  by (simp add: unquote_def trim_def startsWith_dquote_def endsWith_dquote_def slice_1_m1_def
      isWhiteSpace_def dquote_def)

lemma csvToJson_all_kinds:
  "csvToJson (''n,q,s,b,e,t,z\<newline>-12.5e1, '' @ [dquote] @ ''007'' @ [dquote]
       @ '' , hello ,TRUE,'' @ [dquote, dquote] @ '', '' @ [dquote] @ ''say ''
       @ [dquote, dquote] @ ''hi'' @ [dquote, dquote] @ [dquote] @ '' ,x'')
     = [JObj [(''n'', JNum (Finite (- 125))), (''q'', JNum (Finite 7)), (''s'', JStr ''hello''),
              (''b'', JBool True), (''e'', JNull),
              (''t'', JStr (''say '' @ [dquote] @ ''hi'' @ [dquote])), (''z'', JStr ''x'')]]"
  by (simp add: csv_eval)

text \<open>
  C2. The value assigned for a field is \<open>autoConvert\<close> of the field trimmed and unquoted.
  Unquoting: a field that, once trimmed, stands between two quotes loses them and has
  every doubled quote inside made single, so a quoted text comes back as the text, with
  white space around the quotes or not; any other field is what trimming leaves of it.
  \<open>autoConvert\<close> decides in this order: the empty text is \<^verbatim>\<open>null\<close>; a text on which
  \<^verbatim>\<open>Number\<close> is not NaN is that number; a text that is \<^verbatim>\<open>true\<close> or \<^verbatim>\<open>false\<close> in any
  mix of cases is the boolean; any other text stays a string. \<^verbatim>\<open>Number\<close> reads the
  decimal digits of a number up to \<open>2^53\<close> as that number, takes sign, fraction, exponent,
  binary, octal and hexadecimal digits and surrounding white space, rounds to a double
  (to an infinity beyond the range), and is NaN for a text that is a number only in
  part. Every row
  object is built from the headers and the fields of its line by these assignments;
  \<^verbatim>\<open>csvToJson("id\n007")\<close> is \<^verbatim>\<open>[{id: 7}]\<close>.
\<close>

theorem field_coercion_priority:
  "fieldValue raw = autoConvert (unquote raw)
   \<and> (trim raw = dquote # body @ [dquote] \<longrightarrow> unquote raw = replace_dquote2 body)
   \<and> ((\<forall>c\<in>set ws1 \<union> set ws2. isWhiteSpace c) \<longrightarrow> unquote (ws1 @ quoted inner @ ws2) = inner)
   \<and> ((\<forall>c\<in>set ws1 \<union> set ws2. isWhiteSpace c)
        \<and> (core = [] \<or> (\<not> isWhiteSpace (hd core) \<and> \<not> isWhiteSpace (last core)))
        \<and> (core = [] \<or> hd core \<noteq> dquote \<or> last core \<noteq> dquote)
        \<longrightarrow> unquote (ws1 @ core @ ws2) = core)
   \<and> unquote [dquote] = []
   \<and> (val = [] \<longrightarrow> autoConvert val = JNull)
   \<and> (val \<noteq> [] \<and> Number val \<noteq> NaN \<longrightarrow> autoConvert val = JNum (Number val))
   \<and> (val \<noteq> [] \<and> Number val = NaN \<and> toLowerCase val = ''true''
        \<longrightarrow> autoConvert val = JBool True)
   \<and> (val \<noteq> [] \<and> Number val = NaN \<and> toLowerCase val = ''false''
        \<longrightarrow> autoConvert val = JBool False)
   \<and> (val \<noteq> [] \<and> Number val = NaN \<and> toLowerCase val \<noteq> ''true''
        \<and> toLowerCase val \<noteq> ''false'' \<longrightarrow> autoConvert val = JStr val)
   \<and> (n \<le> 2 ^ 53 \<longrightarrow> Number (natToString n) = Finite (of_nat n))
   \<and> Number ''007'' = Finite 7
   \<and> Number ''-12.5e1'' = Finite (- 125)
   \<and> Number ''+.5'' = Finite (1 / 2)
   \<and> Number ''0x1F'' = Finite 31
   \<and> Number '' 42 '' = Finite 42
   \<and> Number ''0.1'' = Finite (3602879701896397 / 36028797018963968)
   \<and> Number ''9007199254740993'' = Finite 9007199254740992
   \<and> Number ''1e400'' = PosInfinity
   \<and> Number ''-1e400'' = NegInfinity
   \<and> Number ''1e-400'' = Finite 0
   \<and> Number ''Infinity'' = PosInfinity
   \<and> Number ''12abc'' = NaN
   \<and> Number ''1 2'' = NaN
   \<and> Number ''.'' = NaN
   \<and> Number ''0b101'' = Finite 5
   \<and> Number ''0o17'' = Finite 15
   \<and> Number ''-0x1F'' = NaN
   \<and> Number ''5.'' = Finite 5
   \<and> Number ''1e'' = NaN
   \<and> Number ''-Infinity'' = NegInfinity
   \<and> (toLowerCase val = ''true'' \<longleftrightarrow>
        (\<exists>t r u e. val = [t, r, u, e] \<and> t \<in> {CHR ''t'', CHR ''T''} \<and> r \<in> {CHR ''r'', CHR ''R''}
           \<and> u \<in> {CHR ''u'', CHR ''U''} \<and> e \<in> {CHR ''e'', CHR ''E''}))
   \<and> (toLowerCase val = ''false'' \<longleftrightarrow>
        (\<exists>f a l s e. val = [f, a, l, s, e] \<and> f \<in> {CHR ''f'', CHR ''F''}
           \<and> a \<in> {CHR ''a'', CHR ''A''} \<and> l \<in> {CHR ''l'', CHR ''L''}
           \<and> s \<in> {CHR ''s'', CHR ''S''} \<and> e \<in> {CHR ''e'', CHR ''E''}))
   \<and> lineObject hs line
       = JObj (ownProps (foldl (\<lambda>obj (h, raw). assignProp obj h (fieldValue raw)) emptyObject
                           (zip hs (split_splitRegex [] line))))
   \<and> csvToJson csv =
       (let lines = split_lines [] (trim csv)
        in if length lines < 2 then []
           else map (lineObject (parseHeaders (lines ! 0)))
                  (filter (\<lambda>l. l \<noteq> []) (map trim (drop 1 lines))))
   \<and> csvToJson ''id\<newline>007'' = [JObj [(''id'', JNum (Finite 7))]]
   \<and> csvToJson (''n,q,s,b,e,t,z\<newline>-12.5e1, '' @ [dquote] @ ''007'' @ [dquote]
         @ '' , hello ,TRUE,'' @ [dquote, dquote] @ '', '' @ [dquote] @ ''say ''
         @ [dquote, dquote] @ ''hi'' @ [dquote, dquote] @ [dquote] @ '' ,x'')
       = [JObj [(''n'', JNum (Finite (- 125))), (''q'', JNum (Finite 7)), (''s'', JStr ''hello''),
                (''b'', JBool True), (''e'', JNull),
                (''t'', JStr (''say '' @ [dquote] @ ''hi'' @ [dquote])), (''z'', JStr ''x'')]]"
proof -
  have a: "fieldValue raw = autoConvert (unquote raw)"
    by (simp add: fieldValue_def)
  have b: "trim raw = dquote # body @ [dquote] \<longrightarrow> unquote raw = replace_dquote2 body"
    using unquote_between_quotes by blast
  have c: "(\<forall>c\<in>set ws1 \<union> set ws2. isWhiteSpace c) \<longrightarrow> unquote (ws1 @ quoted inner @ ws2) = inner"
    using unquote_spaced_quoted by blast
  have d: "(\<forall>c\<in>set ws1 \<union> set ws2. isWhiteSpace c)
        \<and> (core = [] \<or> (\<not> isWhiteSpace (hd core) \<and> \<not> isWhiteSpace (last core)))
        \<and> (core = [] \<or> hd core \<noteq> dquote \<or> last core \<noteq> dquote)
        \<longrightarrow> unquote (ws1 @ core @ ws2) = core"
    using unquote_unquoted [of ws1 ws2 core] by blast
  have e: "(val = [] \<longrightarrow> autoConvert val = JNull)
   \<and> (val \<noteq> [] \<and> Number val \<noteq> NaN \<longrightarrow> autoConvert val = JNum (Number val))
   \<and> (val \<noteq> [] \<and> Number val = NaN \<and> toLowerCase val = ''true''
        \<longrightarrow> autoConvert val = JBool True)
   \<and> (val \<noteq> [] \<and> Number val = NaN \<and> toLowerCase val = ''false''
        \<longrightarrow> autoConvert val = JBool False)
   \<and> (val \<noteq> [] \<and> Number val = NaN \<and> toLowerCase val \<noteq> ''true''
        \<and> toLowerCase val \<noteq> ''false'' \<longrightarrow> autoConvert val = JStr val)"
    by (simp add: autoConvert_def isNaN_def)
  have f: "n \<le> 2 ^ 53 \<longrightarrow> Number (natToString n) = Finite (of_nat n)"
    using Number_natToString by blast
  note g = Number_instances Number_out_of_range toLowerCase_true_iff [of val]
    toLowerCase_false_iff [of val] lineObject_eq [of hs line] csvToJson_rows [of csv]
    csvToJson_id_007 csvToJson_all_kinds unquote_lone_quote
  show ?thesis
    by (intro conjI a b c d e [THEN conjunct1] e [THEN conjunct2, THEN conjunct1]
        e [THEN conjunct2, THEN conjunct2, THEN conjunct1]
        e [THEN conjunct2, THEN conjunct2, THEN conjunct2, THEN conjunct1]
        e [THEN conjunct2, THEN conjunct2, THEN conjunct2, THEN conjunct2] f g)
qed

theorem field_coercion_priority_witness:
  "unquote ('' '' @ quoted ''7, or 8'' @ ''  '') = ''7, or 8''
   \<and> unquote (''  '' @ ''-12.5e1'' @ '' '') = ''-12.5e1''
   \<and> unquote (dquote # ''x'' @ [dquote]) = ''x''
   \<and> autoConvert [] = JNull
   \<and> autoConvert ''-12.5e1'' = JNum (Finite (- 125))
   \<and> autoConvert ''TRUE'' = JBool True
   \<and> autoConvert ''False'' = JBool False
   \<and> autoConvert ''7 up'' = JStr ''7 up''
   \<and> Number (natToString 9007199254740992) = Finite 9007199254740992"
proof -
  have n: "Number ''TRUE'' = NaN" "Number ''False'' = NaN" "Number ''7 up'' = NaN"
    "Number ''-12.5e1'' = Finite (- 125)"
    by (simp_all add: csv_eval)
  have l: "toLowerCase ''TRUE'' = ''true''" "toLowerCase ''False'' = ''false''"
    "toLowerCase ''7 up'' \<noteq> ''true''" "toLowerCase ''7 up'' \<noteq> ''false''"
    by (simp_all add: toLowerCase_true_iff toLowerCase_false_iff)
  have w: "\<forall>c\<in>set '' '' \<union> set ''  ''. isWhiteSpace c" "\<forall>c\<in>set ''  '' \<union> set '' ''. isWhiteSpace c"
    by (simp_all add: isWhiteSpace_def)
  have t: "trim (dquote # ''x'' @ [dquote]) = dquote # ''x'' @ [dquote]"
    by (simp add: trim_def isWhiteSpace_def dquote_def)
  have r: "replace_dquote2 ''x'' = ''x''" by simp
  have h: "\<not> isWhiteSpace (hd ''-12.5e1'')" "\<not> isWhiteSpace (last ''-12.5e1'')"
    "hd ''-12.5e1'' \<noteq> dquote"
    by (simp_all add: isWhiteSpace_def dquote_def)
  show ?thesis
    using field_coercion_priority [where body = "''x''" and raw = "dquote # ''x'' @ [dquote]"
        and ?ws1.0 = "'' ''" and ?ws2.0 = "''  ''" and inner = "''7, or 8''" and core = "[]"
        and val = "[]" and n = 9007199254740992]
      field_coercion_priority [where ?ws1.0 = "''  ''" and ?ws2.0 = "'' ''"
        and core = "''-12.5e1''" and val = "''-12.5e1''"]
      field_coercion_priority [where val = "''TRUE''"]
      field_coercion_priority [where val = "''False''"]
      field_coercion_priority [where val = "''7 up''"]
      n l w t r h
    by simp
qed

lemma lineObject_values:
  assumes "lineObject hs line = JObj ps" and "(k, v) \<in> set ps"
  shows "\<exists>raw. v = fieldValue raw"
proof -
  let ?kvs = "zip hs (split_splitRegex [] line)"
  let ?obj = "foldl (\<lambda>obj (h, raw). assignProp obj h (fieldValue raw)) emptyObject ?kvs"
  from assms(1) have ps: "ps = ownProps ?obj" by (simp add: lineObject_eq)
  have "snd ` set (ownProps ?obj) \<subseteq> snd ` set (ownProps emptyObject) \<union> fieldValue ` snd ` set ?kvs"
    by (rule snd_set_foldl_assignProp)
  moreover have "v \<in> snd ` set (ownProps ?obj)"
    using assms(2) ps by force
  ultimately have "v \<in> fieldValue ` snd ` set ?kvs"
    by (auto simp: emptyObject_def)
  then show ?thesis by blast
qed

lemma csvToJson_row_lineObject:
  assumes "row \<in> set (csvToJson csv)"
  shows "\<exists>hs line. row = lineObject hs line"
  using assms by (auto simp: csvToJson_rows Let_def split: if_splits)

lemma lineObject_JObj: "\<exists>ps. lineObject hs line = JObj ps"
  by (simp add: lineObject_def)

text \<open>
  C10. No value of a row object returned by \<^verbatim>\<open>csvToJson\<close> is the empty string: a field
  that is empty once trimmed and unquoted becomes \<^verbatim>\<open>null\<close>, so do the quoted empty
  field, the field that is one double quote, and the empty field.
\<close>

theorem csvToJson_no_empty_string_value:
  assumes "row \<in> set (csvToJson csv)"
  shows "(\<exists>ps. row = JObj ps \<and> JStr [] \<notin> snd ` set ps)
         \<and> (unquote raw = [] \<longrightarrow> fieldValue raw = JNull)
         \<and> fieldValue [dquote, dquote] = JNull
         \<and> fieldValue [dquote] = JNull
         \<and> fieldValue [] = JNull"
proof (intro conjI)
  from assms obtain hs line where row: "row = lineObject hs line"
    using csvToJson_row_lineObject by blast
  obtain ps where ps: "lineObject hs line = JObj ps"
    using lineObject_JObj by blast
  have "JStr [] \<notin> snd ` set ps"
  proof
    assume "JStr [] \<in> snd ` set ps"
    then obtain k where "(k, JStr []) \<in> set ps" by force
    with ps obtain raw' where "JStr [] = fieldValue raw'"
      using lineObject_values by blast
    then show False
      using autoConvert_not_empty_string [of "unquote raw'"] by (simp add: fieldValue_def)
  qed
  with row ps show "\<exists>ps. row = JObj ps \<and> JStr [] \<notin> snd ` set ps" by simp
  show "unquote raw = [] \<longrightarrow> fieldValue raw = JNull"
    by (simp add: fieldValue_def autoConvert_def)
  show "fieldValue [dquote, dquote] = JNull"
    by (simp add: csv_eval)
  show "fieldValue [dquote] = JNull"
    by (simp add: csv_eval)
  show "fieldValue [] = JNull"
    by (simp add: csv_eval)
qed

lemma csvToJson_quoted_empty:
  "csvToJson (''a,b,c\<newline>'' @ [dquote, dquote] @ '','' @ [dquote] @ '' ''
      @ [dquote] @ '','' @ [dquote] @ ''x'' @ [dquote])
     = [JObj [(''a'', JNull), (''b'', JNum (Finite 0)), (''c'', JStr ''x'')]]"
  by (simp add: csv_eval)

theorem csvToJson_no_empty_string_value_witness:
  "JObj [(''a'', JNull), (''b'', JNum (Finite 0)), (''c'', JStr ''x'')]
     \<in> set (csvToJson (''a,b,c\<newline>'' @ [dquote, dquote] @ '','' @ [dquote] @ '' ''
                         @ [dquote] @ '','' @ [dquote] @ ''x'' @ [dquote]))
   \<and> JStr [] \<notin> snd ` set [(''a'', JNull), (''b'', JNum (Finite 0)), (''c'', JStr ''x'')]
   \<and> unquote [dquote, dquote] = []
   \<and> fieldValue [dquote, dquote] = JNull"
  using csvToJson_no_empty_string_value
    [of "JObj [(''a'', JNull), (''b'', JNum (Finite 0)), (''c'', JStr ''x'')]"
        "''a,b,c\<newline>'' @ [dquote, dquote] @ '','' @ [dquote] @ '' ''
          @ [dquote] @ '','' @ [dquote] @ ''x'' @ [dquote]"
        "[dquote, dquote]"]
    csvToJson_quoted_empty
  by (simp add: unquote_def trim_def isWhiteSpace_def dquote_def startsWith_dquote_def
      endsWith_dquote_def slice_1_m1_def)

lemma fst_set_zip_subset: "fst ` set (zip hs vs) \<subseteq> set (take (length vs) hs)"
proof -
  have "fst ` set (zip hs vs) = set (map fst (zip hs vs))" by simp
  also have "\<dots> = set (take (min (length hs) (length vs)) hs)"
    by (simp only: map_fst_zip_take)
  also have "\<dots> \<subseteq> set (take (length vs) hs)"
    by (simp add: min_def)
  finally show ?thesis .
qed

lemma map_of_rev_zip_last:
  assumes "j < length hs" and "j < length vs" and "hs ! j = k"
      and "k \<notin> set (drop (Suc j) (take (length vs) hs))"
  shows "map_of (rev (zip hs vs)) k = Some (vs ! j)"
proof -
  let ?A = "zip (take j hs) (take j vs)"
  let ?B = "zip (drop (Suc j) hs) (drop (Suc j) vs)"
  have hs: "hs = take j hs @ hs ! j # drop (Suc j) hs"
    using assms(1) by (rule id_take_nth_drop)
  have vs: "vs = take j vs @ vs ! j # drop (Suc j) vs"
    using assms(2) by (rule id_take_nth_drop)
  have "zip hs vs = zip (take j hs @ hs ! j # drop (Suc j) hs) (take j vs @ vs ! j # drop (Suc j) vs)"
    using hs vs by simp
  also have "\<dots> = ?A @ (hs ! j, vs ! j) # ?B"
    using assms(1,2) by (simp add: zip_append)
  finally have z: "zip hs vs = ?A @ (k, vs ! j) # ?B"
    using assms(3) by simp
  have "fst ` set ?B \<subseteq> set (take (length (drop (Suc j) vs)) (drop (Suc j) hs))"
    by (rule fst_set_zip_subset)
  also have "\<dots> = set (drop (Suc j) (take (length vs) hs))"
    by (simp add: drop_take)
  finally have "k \<notin> fst ` set ?B" using assms(4) by blast
  then have "map_of (rev ?B) k = None"
    by (simp add: map_of_eq_None_iff)
  then show ?thesis
    by (simp add: z map_add_def)
qed

text \<open>
  C5, as amended. In the object of a data line, a key that is at no header position
  for which the line has a field is absent. A key other than \<^verbatim>\<open>__proto__\<close> carries the
  converted value of the field at the last header position of that name for which the
  line has a field; that value is \<^verbatim>\<open>null\<close> when the field is empty once trimmed and
  unquoted. The claim as stated fails when a header name occurs twice: see the
  counterexample below.
\<close>

theorem lineObject_short_row_keys:
  assumes "values = split_splitRegex [] line"
      and "lineObject headers line = JObj ps"
  shows "(k \<notin> set (take (length values) headers) \<longrightarrow> map_of ps k = None)
       \<and> (j < length headers \<and> j < length values \<and> headers ! j = k
            \<and> k \<notin> set (drop (Suc j) (take (length values) headers)) \<and> k \<noteq> ''__proto__''
          \<longrightarrow> map_of ps k = Some (fieldValue (values ! j))
              \<and> (unquote (values ! j) = [] \<longrightarrow> map_of ps k = Some JNull))
       \<and> csvToJson csv =
           (let lines = split_lines [] (trim csv)
            in if length lines < 2 then []
               else map (lineObject (parseHeaders (lines ! 0)))
                      (filter (\<lambda>l. l \<noteq> []) (map trim (drop 1 lines))))"
proof (intro conjI impI)
  let ?kvs = "zip headers values"
  let ?obj = "foldl (\<lambda>obj (h, raw). assignProp obj h (fieldValue raw)) emptyObject ?kvs"
  from assms have ps: "ps = ownProps ?obj" by (simp add: lineObject_eq)
  {
    assume k: "k \<notin> set (take (length values) headers)"
    have "dom (map_of ps) \<subseteq> dom (map_of (ownProps emptyObject)) \<union> fst ` set ?kvs"
      unfolding ps by (rule dom_foldl_assignProp)
    also have "\<dots> \<subseteq> set (take (length values) headers)"
      using fst_set_zip_subset [of headers "values"] by (simp add: emptyObject_def)
    finally show "map_of ps k = None" using k by blast
  }
  {
    assume a: "j < length headers \<and> j < length values \<and> headers ! j = k
            \<and> k \<notin> set (drop (Suc j) (take (length values) headers)) \<and> k \<noteq> ''__proto__''"
    have m: "map (\<lambda>(h, raw). (h, fieldValue raw)) ?kvs = zip headers (map fieldValue values)"
      by (simp add: zip_map2)
    from a have kp: "k \<noteq> ''__proto__''" by simp
    have "map_of ps k
            = (case map_of (rev (map (\<lambda>(h, raw). (h, fieldValue raw)) ?kvs)) k of
                 Some v \<Rightarrow> Some v | None \<Rightarrow> map_of (ownProps emptyObject) k)"
      unfolding ps by (rule map_of_foldl_assignProp [OF kp])
    then have "map_of ps k
            = (case map_of (rev (zip headers (map fieldValue values))) k of
                 Some v \<Rightarrow> Some v | None \<Rightarrow> map_of (ownProps emptyObject) k)"
      unfolding m .
    moreover have "map_of (rev (zip headers (map fieldValue values))) k
                     = Some (map fieldValue values ! j)"
      using a by (intro map_of_rev_zip_last) simp_all
    ultimately show r: "map_of ps k = Some (fieldValue (values ! j))"
      using a by simp
    {
      assume "unquote (values ! j) = []"
      with r show "map_of ps k = Some JNull"
        by (simp add: fieldValue_def autoConvert_def)
    }
  }
  show "csvToJson csv =
           (let lines = split_lines [] (trim csv)
            in if length lines < 2 then []
               else map (lineObject (parseHeaders (lines ! 0)))
                      (filter (\<lambda>l. l \<noteq> []) (map trim (drop 1 lines))))"
    by (rule csvToJson_rows)
qed

text \<open>
  With the header line \<^verbatim>\<open>a,b,a\<close> and the data line \<^verbatim>\<open>1,2\<close> the third key lies beyond
  the last field and is present all the same, with the first field's value; and with
  headers \<^verbatim>\<open>a,a\<close> the empty first field of \<^verbatim>\<open>,5\<close> does not leave \<^verbatim>\<open>a\<close> at \<^verbatim>\<open>null\<close>.
\<close>

theorem short_row_duplicate_header_counterexample:
  "parseHeaders ''a,b,a'' = [''a'', ''b'', ''a'']
   \<and> split_splitRegex [] ''1,2'' = [''1'', ''2'']
   \<and> csvToJson ''a,b,a\<newline>1,2'' = [JObj [(''a'', JNum (Finite 1)), (''b'', JNum (Finite 2))]]
   \<and> map_of [(''a'', JNum (Finite 1)), (''b'', JNum (Finite 2))] (parseHeaders ''a,b,a'' ! 2)
       = Some (JNum (Finite 1))
   \<and> csvToJson ''a,a\<newline>,5'' = [JObj [(''a'', JNum (Finite 5))]]"
  by (simp add: csv_eval)

lemma lineObject_short_example:
  "split_splitRegex [] '',2'' = [[], ''2'']"
  "lineObject [''a'', ''b'', ''c''] '',2'' = JObj [(''a'', JNull), (''b'', JNum (Finite 2))]"
  by (simp_all add: csv_eval)

theorem lineObject_short_row_keys_witness:
  "map_of [(''a'', JNull), (''b'', JNum (Finite 2))] ''c'' = None
   \<and> map_of [(''a'', JNull), (''b'', JNum (Finite 2))] ''a'' = Some JNull"
  using lineObject_short_row_keys
    [of "[[], ''2'']" "'',2''" "[''a'', ''b'', ''c'']" "[(''a'', JNull), (''b'', JNum (Finite 2))]"
        "''c''" 0 "[]"]
    lineObject_short_row_keys
    [of "[[], ''2'']" "'',2''" "[''a'', ''b'', ''c'']" "[(''a'', JNull), (''b'', JNum (Finite 2))]"
        "''a''" 0 "[]"]
    lineObject_short_example
  by simp

section \<open>Headers and rows of \<^verbatim>\<open>jsonToCsv\<close>\<close>

lemma fold_item_keys:
  "fold (\<lambda>item keys.
           if isObjectNotNull item then fold (\<lambda>k keys. Set_add keys k) (Object_keys item) keys
           else keys) items acc
     = fold (\<lambda>k keys. Set_add keys k) (keyScan items) acc"
  by (induction items arbitrary: acc) (simp_all add: keyScan_def)

lemma collectKeys_scan: "collectKeys items = fold (\<lambda>k keys. Set_add keys k) (keyScan items) []"
  by (simp add: collectKeys_def fold_item_keys)

lemma firstIndex_less: "x \<in> set xs \<Longrightarrow> firstIndex xs x < length xs"
  unfolding firstIndex_def by (induction xs) auto

lemma firstIndex_append_in: "x \<in> set xs \<Longrightarrow> firstIndex (xs @ ys) x = firstIndex xs x"
  unfolding firstIndex_def by (simp add: takeWhile_append1)

lemma firstIndex_append_new: "x \<notin> set xs \<Longrightarrow> firstIndex (xs @ [x]) x = length xs"
  unfolding firstIndex_def by (subst takeWhile_append2) auto

lemma fold_Set_add_first_seen:
  "distinct (fold (\<lambda>k keys. Set_add keys k) scan [])
   \<and> set (fold (\<lambda>k keys. Set_add keys k) scan []) = set scan
   \<and> (\<forall>i j. i < j \<and> j < length (fold (\<lambda>k keys. Set_add keys k) scan [])
        \<longrightarrow> firstIndex scan (fold (\<lambda>k keys. Set_add keys k) scan [] ! i)
              < firstIndex scan (fold (\<lambda>k keys. Set_add keys k) scan [] ! j))"
proof (induction scan rule: rev_induct)
  case Nil
  then show ?case by simp
next
  case (snoc x xs)
  let ?F = "fold (\<lambda>k keys. Set_add keys k) xs []"
  from snoc have d: "distinct ?F" and s: "set ?F = set xs"
    and o: "\<And>i j. i < j \<Longrightarrow> j < length ?F \<Longrightarrow> firstIndex xs (?F ! i) < firstIndex xs (?F ! j)"
    by auto
  have F: "fold (\<lambda>k keys. Set_add keys k) (xs @ [x]) [] = Set_add ?F x" by simp
  show ?case
  proof (cases "x \<in> set xs")
    case True
    then have eq: "Set_add ?F x = ?F" using s by (simp add: Set_add_def)
    have "\<And>i. i < length ?F \<Longrightarrow> firstIndex (xs @ [x]) (?F ! i) = firstIndex xs (?F ! i)"
      using s by (intro firstIndex_append_in) (metis nth_mem)
    with d s o True show ?thesis unfolding F eq by auto
  next
    case False
    then have eq: "Set_add ?F x = ?F @ [x]" using s by (simp add: Set_add_def)
    have old: "\<And>i. i < length ?F \<Longrightarrow> firstIndex (xs @ [x]) (?F ! i) = firstIndex xs (?F ! i)"
      using s by (intro firstIndex_append_in) (metis nth_mem)
    have lt: "\<And>i. i < length ?F \<Longrightarrow> firstIndex xs (?F ! i) < length xs"
      using s by (intro firstIndex_less) (metis nth_mem)
    have new: "firstIndex (xs @ [x]) x = length xs"
      using False by (rule firstIndex_append_new)
    have "\<forall>i j. i < j \<and> j < length (?F @ [x])
            \<longrightarrow> firstIndex (xs @ [x]) ((?F @ [x]) ! i) < firstIndex (xs @ [x]) ((?F @ [x]) ! j)"
    proof (intro allI impI)
      fix i j
      assume a: "i < j \<and> j < length (?F @ [x])"
      show "firstIndex (xs @ [x]) ((?F @ [x]) ! i) < firstIndex (xs @ [x]) ((?F @ [x]) ! j)"
      proof (cases "j < length ?F")
        case True
        with a o [of i j] old [of i] old [of j] show ?thesis by (simp add: nth_append)
      next
        case False
        with a have j: "j = length ?F" by simp
        with a old [of i] lt [of i] new show ?thesis by (simp add: nth_append)
      qed
    qed
    with d s False show ?thesis unfolding F eq by simp
  qed
qed

lemma firstThrow_Inr: "firstThrow xs = Inr vs \<Longrightarrow> xs = map Inr vs"
  by (induction xs arbitrary: vs) (auto split: sum.splits)

lemma firstThrow_map_Inr: "firstThrow (map Inr vs) = Inr vs"
  by (induction vs) simp_all

lemma firstThrow_map_eq_Inr:
  "firstThrow (map f xs) = Inr vs \<longleftrightarrow> map f xs = map Inr vs"
  using firstThrow_Inr [of "map f xs" vs] firstThrow_map_Inr [of vs] by auto

lemma items_loop_eq:
  "items_loop eng hs items rows
     = (case firstThrow (map (itemRow eng hs) (filter isObjectNotNull items)) of
          Inl message \<Rightarrow> Inl message
        | Inr rs \<Rightarrow> Inr (rows @ rs))"
  by (induction items arbitrary: rows) (simp_all split: sum.splits)

lemma csvRows_eq:
  "csvRows eng items
     = (case firstThrow (map (itemRow eng (collectKeys items)) (filter isObjectNotNull items)) of
          Inl message \<Rightarrow> Inl message
        | Inr rs \<Rightarrow> Inr (join '','' (collectKeys items) # rs))"
  by (simp add: csvRows_def items_loop_eq Let_def split: sum.splits)

lemma csvRows_Inr:
  assumes "csvRows eng items = Inr rows"
  shows "\<exists>rs. rows = join '','' (collectKeys items) # rs
           \<and> map (itemRow eng (collectKeys items)) (filter isObjectNotNull items) = map Inr rs"
  using assms firstThrow_Inr
  unfolding csvRows_eq by (fastforce split: sum.splits)

lemma csvRows_texts:
  assumes "\<forall>item\<in>set items. isObjectNotNull item \<longrightarrow>
             (\<forall>h\<in>set (collectKeys items). \<exists>sv. stringVal eng item h = Inr sv)"
  shows "csvRows eng items
           = Inr (join '','' (collectKeys items)
                  # map (\<lambda>item. join '','' (map quoted
                           (map (\<lambda>h. projr (stringVal eng item h)) (collectKeys items))))
                      (filter isObjectNotNull items))"
proof -
  let ?hs = "collectKeys items"
  let ?objs = "filter isObjectNotNull items"
  let ?sv = "\<lambda>item h. projr (stringVal eng item h)"
  let ?R = "\<lambda>item. join '','' (map quoted (map (?sv item) ?hs))"
  have field: "csvField eng item h = Inr (quoted (?sv item h))"
    if "item \<in> set ?objs" "h \<in> set ?hs" for item h
  proof -
    from assms that obtain t where "stringVal eng item h = Inr t" by auto
    then show ?thesis by (simp add: csvField_def quoted_def)
  qed
  have row: "itemRow eng ?hs item = Inr (?R item)" if "item \<in> set ?objs" for item
  proof -
    have "map (csvField eng item) ?hs = map Inr (map quoted (map (?sv item) ?hs))"
      using field [OF that] by simp
    then have "firstThrow (map (csvField eng item) ?hs) = Inr (map quoted (map (?sv item) ?hs))"
      by (simp only: firstThrow_map_Inr)
    then show ?thesis by (simp add: itemRow_def)
  qed
  have "map (itemRow eng ?hs) ?objs = map Inr (map ?R ?objs)"
    using row by simp
  then have "firstThrow (map (itemRow eng ?hs) ?objs) = Inr (map ?R ?objs)"
    by (simp only: firstThrow_map_Inr)
  then show ?thesis by (simp add: csvRows_eq)
qed

lemma keyScan_remove:
  "\<not> isObjectNotNull x \<Longrightarrow> keyScan (xs @ x # ys) = keyScan (xs @ ys)"
  by (simp add: keyScan_def)

lemma set_keyScan:
  "set (keyScan items) = (\<Union>item \<in> {x \<in> set items. isObjectNotNull x}. set (Object_keys item))"
  by (auto simp: keyScan_def)

lemmas json_eval =
  jsonToCsv_def csvRows_def collectKeys_def Set_add_def Object_keys_def isObjectNotNull_def
  itemRow_def csvField_def stringVal_def getOwnProperty_def replace_dquote_all_def
  numberToString_def natToString.simps
  arrayIndex_def digitsValue_def hexDigitValue_def dquote_def LF_def sampleEngine_def upt_rec

text \<open>
  A value that \<^verbatim>\<open>String\<close> cannot convert ends \<^verbatim>\<open>jsonToCsv\<close> with the error thrown: for
  \<^verbatim>\<open>[{a: {toString: 1}}]\<close> there is no text, and the worker posts \<^verbatim>\<open>ERROR\<close>.
\<close>

lemma jsonToCsv_conversion_error:
  "jsonToCsv sampleEngine (JArr [JObj [(''a'', JObj [(''toString'', JNum (Finite 1))])]])
     = Inl ''Cannot convert object to primitive value''"
  "onmessage sampleEngine
     \<lparr>msg_type = JStr ''JSON_TO_CSV'',
      msg_data = JArr [JObj [(''a'', JObj [(''toString'', JNum (Finite 1))])]],
      msg_id = JNum (Finite 1)\<rparr>
     = [ERROR (JNum (Finite 1)) ''Cannot convert object to primitive value'']"
  by (simp_all add: json_eval onmessage_def switch_type_def)

text \<open>
  C1, as amended. The elements that \<^verbatim>\<open>jsonToCsv\<close> passes over are those that are neither
  a mapping nor an array: \<^verbatim>\<open>null\<close>, \<^verbatim>\<open>undefined\<close>, a boolean, a number, a string. Such
  an element contributes nothing to the header set and produces no output row:
  removing it from the input changes neither the headers nor the outcome, be it the
  text returned or the error thrown. The header set is the union of the own keys of
  the other elements, the mappings and the arrays (an array's keys are its indices).
  When \<^verbatim>\<open>jsonToCsv\<close> gets to the end of its loop, the rows after the header row are
  those of the mappings and arrays, one each, in order.
\<close>

theorem jsonToCsv_skips_non_objects:
  "set (collectKeys items)
     = (\<Union>item \<in> {x \<in> set items. isObjectNotNull x}. set (Object_keys item))
   \<and> (\<not> isObjectNotNull x
        \<longrightarrow> collectKeys (xs @ x # ys) = collectKeys (xs @ ys)
            \<and> csvRows eng (xs @ x # ys) = csvRows eng (xs @ ys)
            \<and> jsonToCsv eng (JArr (xs @ x # ys)) = jsonToCsv eng (JArr (xs @ ys)))
   \<and> (csvRows eng items = Inr rows
        \<longrightarrow> length rows = 1 + length (filter isObjectNotNull items)
            \<and> (\<forall>i < length (filter isObjectNotNull items).
                  itemRow eng (collectKeys items) (filter isObjectNotNull items ! i)
                    = Inr (rows ! (i + 1))))
   \<and> (isObjectNotNull x \<longleftrightarrow> (\<exists>elems. x = JArr elems) \<or> (\<exists>ps. x = JObj ps))
   \<and> (isMapping x \<longrightarrow> isObjectNotNull x)"
proof (intro conjI impI)
  show "set (collectKeys items)
     = (\<Union>item \<in> {x \<in> set items. isObjectNotNull x}. set (Object_keys item))"
    using fold_Set_add_first_seen [of "keyScan items"]
    by (simp only: collectKeys_scan set_keyScan)
  show "isObjectNotNull x \<longleftrightarrow> (\<exists>elems. x = JArr elems) \<or> (\<exists>ps. x = JObj ps)"
    by (cases x) (simp_all add: isObjectNotNull_def)
  {
    assume "isMapping x"
    then show "isObjectNotNull x"
      by (cases x) (simp_all add: isMapping_def isObjectNotNull_def)
  }
  {
    assume x: "\<not> isObjectNotNull x"
    then show k: "collectKeys (xs @ x # ys) = collectKeys (xs @ ys)"
      by (simp add: collectKeys_scan keyScan_remove)
    show c: "csvRows eng (xs @ x # ys) = csvRows eng (xs @ ys)"
      using x k by (simp add: csvRows_eq split: sum.splits)
    have e: "csvRows eng [x] = Inr [[]]"
      using x by (simp add: csvRows_eq collectKeys_def)
    show "jsonToCsv eng (JArr (xs @ x # ys)) = jsonToCsv eng (JArr (xs @ ys))"
    proof (cases "xs @ ys = []")
      case True
      with e show ?thesis by (simp add: jsonToCsv_def)
    next
      case False
      with c show ?thesis by (auto simp: jsonToCsv_def)
    qed
  }
  {
    assume "csvRows eng items = Inr rows"
    then obtain rs where r: "rows = join '','' (collectKeys items) # rs"
      and m: "map (itemRow eng (collectKeys items)) (filter isObjectNotNull items) = map Inr rs"
      using csvRows_Inr by blast
    from m have l: "length rs = length (filter isObjectNotNull items)"
      by (metis length_map)
    from r l show "length rows = 1 + length (filter isObjectNotNull items)" by simp
    show "\<forall>i < length (filter isObjectNotNull items).
            itemRow eng (collectKeys items) (filter isObjectNotNull items ! i)
              = Inr (rows ! (i + 1))"
    proof (intro allI impI)
      fix i
      assume i: "i < length (filter isObjectNotNull items)"
      then have "map (itemRow eng (collectKeys items)) (filter isObjectNotNull items) ! i
                   = map Inr rs ! i"
        using m by simp
      with i l r show "itemRow eng (collectKeys items) (filter isObjectNotNull items ! i)
              = Inr (rows ! (i + 1))"
        by simp
    qed
  }
qed

lemma skips_non_objects_example:
  "csvRows sampleEngine [JNull, JObj [(''a'', JBool True)]]
     = Inr [''a'', [dquote] @ ''true'' @ [dquote]]"
  "filter isObjectNotNull [JNull, JObj [(''a'', JBool True)]] = [JObj [(''a'', JBool True)]]"
  "collectKeys [JNull, JObj [(''a'', JBool True)]] = [''a'']"
  by (simp_all add: json_eval)

theorem jsonToCsv_skips_non_objects_witness:
  "jsonToCsv sampleEngine (JArr ([JNull] @ JStr ''skipped'' # [JObj [(''a'', JBool True)]]))
     = jsonToCsv sampleEngine (JArr ([JNull] @ [JObj [(''a'', JBool True)]]))
   \<and> isObjectNotNull (JObj [(''a'', JBool True)])
   \<and> length [''a'', [dquote] @ ''true'' @ [dquote]] = 1 + length [JObj [(''a'', JBool True)]]
   \<and> itemRow sampleEngine [''a''] (JObj [(''a'', JBool True)])
       = Inr ([dquote] @ ''true'' @ [dquote])"
  using jsonToCsv_skips_non_objects
    [of "[JNull, JObj [(''a'', JBool True)]]" "JStr ''skipped''" "[JNull]"
        "[JObj [(''a'', JBool True)]]" sampleEngine "[''a'', [dquote] @ ''true'' @ [dquote]]"]
    jsonToCsv_skips_non_objects
    [of "[]" "JObj [(''a'', JBool True)]" "[]" "[]" sampleEngine "[]"]
    skips_non_objects_example
  by (simp add: isObjectNotNull_def isMapping_def)

text \<open>
  The claim as stated fails for an element that is an array: it is no mapping, yet it
  gives the headers \<^verbatim>\<open>0\<close> and \<^verbatim>\<open>1\<close> and a row of its own.
\<close>

theorem array_element_counterexample:
  "\<not> isMapping (JArr [JNum (Finite 1), JNum (Finite 2)])
   \<and> collectKeys [JArr [JNum (Finite 1), JNum (Finite 2)]] = [''0'', ''1'']
   \<and> csvRows sampleEngine [JArr [JNum (Finite 1), JNum (Finite 2)]]
       = Inr [''0,1'', [dquote] @ ''1'' @ [dquote] @ '','' @ [dquote] @ ''2'' @ [dquote]]
   \<and> jsonToCsv sampleEngine (JArr [JArr [JNum (Finite 1), JNum (Finite 2)]])
       = Inr (''0,1'' @ [LF] @ [dquote] @ ''1'' @ [dquote] @ '','' @ [dquote] @ ''2'' @ [dquote])"
  by (simp add: json_eval isMapping_def)

text \<open>
  C6. The headers of \<^verbatim>\<open>jsonToCsv\<close> hold each key of the scan exactly once, and a
  header stands before another exactly as its first occurrence in the scan comes
  before the other's. The header row is the first row of the output, and there is an
  output whenever every field has a text (no conversion throws). For
  \<^verbatim>\<open>[{b:1},{a:1,b:2}]\<close> the headers are \<^verbatim>\<open>b\<close>, \<^verbatim>\<open>a\<close> and the header row is \<^verbatim>\<open>b,a\<close>,
  whatever the engine.
\<close>

theorem jsonToCsv_header_order:
  "distinct (collectKeys items)
   \<and> set (collectKeys items) = set (keyScan items)
   \<and> (i < j \<and> j < length (collectKeys items)
        \<longrightarrow> firstIndex (keyScan items) (collectKeys items ! i)
              < firstIndex (keyScan items) (collectKeys items ! j))
   \<and> (csvRows eng items = Inr rows \<longrightarrow> hd rows = join '','' (collectKeys items))
   \<and> ((\<forall>item\<in>set items. isObjectNotNull item \<longrightarrow>
           (\<forall>h\<in>set (collectKeys items). \<exists>sv. stringVal eng item h = Inr sv))
        \<longrightarrow> (\<exists>rest. csvRows eng items = Inr (join '','' (collectKeys items) # rest)))
   \<and> (items \<noteq> []
        \<longrightarrow> jsonToCsv eng (JArr items)
              = (case csvRows eng items of
                   Inl message \<Rightarrow> Inl message
                 | Inr rows \<Rightarrow> Inr (join [LF] rows)))
   \<and> collectKeys [JObj [(''b'', JNum (Finite 1))],
                   JObj [(''a'', JNum (Finite 1)), (''b'', JNum (Finite 2))]] = [''b'', ''a'']
   \<and> (\<exists>row1 row2.
         csvRows eng [JObj [(''b'', JNum (Finite 1))],
                      JObj [(''a'', JNum (Finite 1)), (''b'', JNum (Finite 2))]]
           = Inr [''b,a'', row1, row2])
   \<and> jsonToCsv sampleEngine
        (JArr [JObj [(''b'', JNum (Finite 1))],
               JObj [(''a'', JNum (Finite 1)), (''b'', JNum (Finite 2))]])
       = Inr (''b,a'' @ [LF] @ [dquote] @ ''1'' @ [dquote] @ '','' @ [dquote, dquote]
         @ [LF] @ [dquote] @ ''2'' @ [dquote] @ '','' @ [dquote] @ ''1'' @ [dquote])"
proof (intro conjI impI)
  note fs = fold_Set_add_first_seen [of "keyScan items", folded collectKeys_scan]
  from fs show "distinct (collectKeys items)" by blast
  from fs show "set (collectKeys items) = set (keyScan items)" by blast
  {
    assume "i < j \<and> j < length (collectKeys items)"
    with fs show "firstIndex (keyScan items) (collectKeys items ! i)
              < firstIndex (keyScan items) (collectKeys items ! j)" by blast
  }
  {
    assume "csvRows eng items = Inr rows"
    then show "hd rows = join '','' (collectKeys items)"
      using csvRows_Inr by fastforce
  }
  {
    assume "\<forall>item\<in>set items. isObjectNotNull item \<longrightarrow>
           (\<forall>h\<in>set (collectKeys items). \<exists>sv. stringVal eng item h = Inr sv)"
    then show "\<exists>rest. csvRows eng items = Inr (join '','' (collectKeys items) # rest)"
      using csvRows_texts by blast
  }
  {
    assume "items \<noteq> []"
    then show "jsonToCsv eng (JArr items)
              = (case csvRows eng items of
                   Inl message \<Rightarrow> Inl message
                 | Inr rows \<Rightarrow> Inr (join [LF] rows))"
      by (simp add: jsonToCsv_def)
  }
  show k: "collectKeys [JObj [(''b'', JNum (Finite 1))],
                   JObj [(''a'', JNum (Finite 1)), (''b'', JNum (Finite 2))]] = [''b'', ''a'']"
    by (simp add: json_eval)
  show "\<exists>row1 row2.
         csvRows eng [JObj [(''b'', JNum (Finite 1))],
                      JObj [(''a'', JNum (Finite 1)), (''b'', JNum (Finite 2))]]
           = Inr [''b,a'', row1, row2]"
    by (simp add: csvRows_eq k isObjectNotNull_def itemRow_def csvField_def stringVal_def
        getOwnProperty_def)
  show "jsonToCsv sampleEngine
        (JArr [JObj [(''b'', JNum (Finite 1))],
               JObj [(''a'', JNum (Finite 1)), (''b'', JNum (Finite 2))]])
       = Inr (''b,a'' @ [LF] @ [dquote] @ ''1'' @ [dquote] @ '','' @ [dquote, dquote]
         @ [LF] @ [dquote] @ ''2'' @ [dquote] @ '','' @ [dquote] @ ''1'' @ [dquote])"
    by (simp add: json_eval)
qed

lemma header_order_example:
  "keyScan [JObj [(''b'', JNum (Finite 1))],
            JObj [(''a'', JNum (Finite 1)), (''b'', JNum (Finite 2))]] = [''b'', ''a'', ''b'']"
  "collectKeys [JObj [(''b'', JNum (Finite 1))],
                JObj [(''a'', JNum (Finite 1)), (''b'', JNum (Finite 2))]] = [''b'', ''a'']"
  by (simp_all add: keyScan_def collectKeys_def Set_add_def Object_keys_def isObjectNotNull_def)

lemma header_order_example_rows:
  "csvRows sampleEngine
     [JObj [(''b'', JNum (Finite 1))], JObj [(''a'', JNum (Finite 1)), (''b'', JNum (Finite 2))]]
     = Inr [''b,a'', [dquote] @ ''1'' @ [dquote] @ '','' @ [dquote, dquote],
            [dquote] @ ''2'' @ [dquote] @ '','' @ [dquote] @ ''1'' @ [dquote]]"
  by (simp add: json_eval)

theorem jsonToCsv_header_order_witness:
  "firstIndex [''b'', ''a'', ''b''] ([''b'', ''a''] ! 0) < firstIndex [''b'', ''a'', ''b''] ([''b'', ''a''] ! 1)
   \<and> hd [''b,a'', [dquote] @ ''1'' @ [dquote] @ '','' @ [dquote, dquote],
          [dquote] @ ''2'' @ [dquote] @ '','' @ [dquote] @ ''1'' @ [dquote]] = join '','' [''b'', ''a'']
   \<and> (\<exists>rest. csvRows sampleEngine
          [JObj [(''b'', JNum (Finite 1))], JObj [(''a'', JNum (Finite 1)), (''b'', JNum (Finite 2))]]
        = Inr (join '','' [''b'', ''a''] # rest))
   \<and> jsonToCsv sampleEngine
        (JArr [JObj [(''b'', JNum (Finite 1))],
               JObj [(''a'', JNum (Finite 1)), (''b'', JNum (Finite 2))]])
       = Inr (join [LF] [''b,a'', [dquote] @ ''1'' @ [dquote] @ '','' @ [dquote, dquote],
            [dquote] @ ''2'' @ [dquote] @ '','' @ [dquote] @ ''1'' @ [dquote]])"
proof -
  let ?items = "[JObj [(''b'', JNum (Finite 1))],
                 JObj [(''a'', JNum (Finite 1)), (''b'', JNum (Finite 2))]]"
  have t: "\<forall>item\<in>set ?items. isObjectNotNull item \<longrightarrow>
             (\<forall>h\<in>set (collectKeys ?items). \<exists>sv. stringVal sampleEngine item h = Inr sv)"
    by (simp add: json_eval)
  show ?thesis
    using jsonToCsv_header_order
      [of ?items 0 1 sampleEngine
          "[''b,a'', [dquote] @ ''1'' @ [dquote] @ '','' @ [dquote, dquote],
            [dquote] @ ''2'' @ [dquote] @ '','' @ [dquote] @ ''1'' @ [dquote]]"]
      header_order_example header_order_example_rows t
    by simp
qed

section \<open>Quoted fields: from \<^verbatim>\<open>jsonToCsv\<close> back through \<^verbatim>\<open>csvToJson\<close>\<close>

lemma split_lines_no_LF: "LF \<notin> set s \<Longrightarrow> split_lines cur s = [cur @ s]"
proof (induction s arbitrary: cur)
  case Nil
  then show ?case by simp
next
  case (Cons c s)
  then have "c \<noteq> LF" "LF \<notin> set s" by auto
  moreover from this have "\<not> (case s of [] \<Rightarrow> False | d # _ \<Rightarrow> d = LF)"
    by (cases s) auto
  ultimately show ?case using Cons.IH [of "cur @ [c]"] by simp
qed

lemma split_lines_at_LF:
  "LF \<notin> set h \<Longrightarrow> (h \<noteq> [] \<longrightarrow> last h \<noteq> CR)
   \<Longrightarrow> split_lines cur (h @ LF # r) = (cur @ h) # split_lines [] r"
proof (induction h arbitrary: cur)
  case Nil
  then show ?case by simp
next
  case (Cons c h)
  then have c: "c \<noteq> LF" and h: "LF \<notin> set h" by auto
  have l: "h \<noteq> [] \<longrightarrow> last h \<noteq> CR" using Cons.prems(2) by auto
  have n: "\<not> (c = CR \<and> (case h @ LF # r of [] \<Rightarrow> False | d # _ \<Rightarrow> d = LF))"
  proof (cases h)
    case Nil
    with Cons.prems(2) show ?thesis by simp
  next
    case (Cons d h')
    with h show ?thesis by auto
  qed
  have "split_lines cur ((c # h) @ LF # r) = split_lines (cur @ [c]) (h @ LF # r)"
    using c n by (cases "c = CR") auto
  with Cons.IH [OF h l, of "cur @ [c]"] show ?case by simp
qed

lemma split_comma_no_comma: "comma \<notin> set s \<Longrightarrow> split_comma cur s = [cur @ s]"
  by (induction s arbitrary: cur) auto

lemma split_comma_at_comma:
  "comma \<notin> set h \<Longrightarrow> split_comma cur (h @ comma # r) = (cur @ h) # split_comma [] r"
  by (induction h arbitrary: cur) auto

lemma comma_string: "'','' = [comma]"
  by (simp add: comma_def)

lemma split_comma_join:
  "comma \<notin> set k \<Longrightarrow> \<forall>k'\<in>set ks. comma \<notin> set k'
   \<Longrightarrow> split_comma [] (join '','' (k # ks)) = k # ks"
proof (induction ks arbitrary: k)
  case Nil
  then show ?case by (simp add: split_comma_no_comma)
next
  case (Cons k' ks)
  then have "split_comma [] (join '','' (k' # ks)) = k' # ks" by simp
  with Cons.prems(1) show ?case
    by (simp add: comma_string split_comma_at_comma)
qed

lemma even_dquotes_escaped: "lookahead_even_dquotes (replace_dquote_all s)"
  by (induction s) (simp_all add: lookahead_even_dquotes_def replace_dquote_all_Cons replace_dquote_all_Nil)

lemma set_replace_dquote_all: "set (replace_dquote_all s) \<subseteq> insert dquote (set s)"
  by (auto simp: replace_dquote_all_def split: if_splits)

lemma dquote_not_comma: "dquote \<noteq> comma"
  by (simp add: dquote_def comma_def)

lemma lookahead_append:
  "lookahead_even_dquotes (a @ b) = (lookahead_even_dquotes a = lookahead_even_dquotes b)"
  by (auto simp: lookahead_even_dquotes_def)

lemma lookahead_Nil: "lookahead_even_dquotes []"
  by (simp add: lookahead_even_dquotes_def)

lemma lookahead_Cons:
  "lookahead_even_dquotes (c # s) = (if c = dquote then \<not> lookahead_even_dquotes s else lookahead_even_dquotes s)"
  by (simp add: lookahead_even_dquotes_def)

lemma split_inside_quotes:
  "lookahead_even_dquotes T \<Longrightarrow>
   split_splitRegex cur (replace_dquote_all s @ dquote # T)
     = split_splitRegex (cur @ replace_dquote_all s @ [dquote]) T"
proof (induction s arbitrary: cur)
  case Nil
  then show ?case by (simp add: replace_dquote_all_Nil dquote_not_comma)
next
  case (Cons c s)
  have odd: "\<not> lookahead_even_dquotes (replace_dquote_all s @ dquote # T)"
    using Cons.prems by (simp add: lookahead_append lookahead_Cons even_dquotes_escaped)
  show ?case
  proof (cases "c = dquote")
    case True
    then show ?thesis
      using Cons.IH [OF Cons.prems, of "cur @ [dquote, dquote]"]
      by (simp add: replace_dquote_all_Cons dquote_not_comma)
  next
    case False
    then show ?thesis
      using Cons.IH [OF Cons.prems, of "cur @ [c]"] odd
      by (simp add: replace_dquote_all_Cons)
  qed
qed

lemma lookahead_quoted: "lookahead_even_dquotes (quoted sv)"
  by (simp add: quoted_def lookahead_append lookahead_Cons lookahead_Nil even_dquotes_escaped)

lemma lookahead_join_quoted: "lookahead_even_dquotes (join '','' (map quoted svs))"
proof (induction svs rule: induct_list012)
  case 1
  then show ?case by (simp add: lookahead_even_dquotes_def)
next
  case (2 x)
  then show ?case by (simp add: lookahead_quoted)
next
  case (3 x y zs)
  then show ?case
    using dquote_not_comma
    by (auto simp: lookahead_append lookahead_quoted lookahead_Cons comma_string)
qed

lemma split_quoted_then:
  "lookahead_even_dquotes T \<Longrightarrow> split_splitRegex [] (quoted sv @ T) = split_splitRegex (quoted sv) T"
  using split_inside_quotes [of T "[dquote]" sv]
  by (simp add: quoted_def dquote_not_comma)

lemma split_join_quoted:
  "split_splitRegex [] (join '','' (map quoted (sv # svs))) = map quoted (sv # svs)"
proof (induction svs arbitrary: sv)
  case Nil
  show ?case
    using split_quoted_then [of "[]" sv] by (simp add: lookahead_even_dquotes_def)
next
  case (Cons sv' svs)
  let ?T = "join '','' (map quoted (sv' # svs))"
  have e: "lookahead_even_dquotes ?T" by (rule lookahead_join_quoted)
  then have e': "lookahead_even_dquotes (comma # ?T)"
    by (simp add: lookahead_Cons dquote_not_comma [symmetric])
  have "split_splitRegex [] (join '','' (map quoted (sv # sv' # svs)))
          = split_splitRegex [] (quoted sv @ comma # ?T)"
    by (simp add: comma_string)
  also have "\<dots> = split_splitRegex (quoted sv) (comma # ?T)"
    using e' by (rule split_quoted_then)
  also have "\<dots> = quoted sv # split_splitRegex [] ?T"
    using e by simp
  finally show ?case using Cons.IH [of sv'] by simp
qed

lemma join_Cons_append: "join sep (x # xs) = x @ concat (map (\<lambda>y. sep @ y) xs)"
  by (induction xs arbitrary: x) simp_all

lemma hd_join: "x \<noteq> [] \<Longrightarrow> hd (join sep (x # xs)) = hd x"
  by (simp add: join_Cons_append)

lemma join_not_Nil: "x \<noteq> [] \<Longrightarrow> join sep (x # xs) \<noteq> []"
  by (simp add: join_Cons_append)

lemma last_join_aux:
  "xs \<noteq> [] \<Longrightarrow> last xs \<noteq> [] \<Longrightarrow> join sep xs \<noteq> [] \<and> last (join sep xs) = last (last xs)"
proof (induction xs rule: induct_list012)
  case 1
  then show ?case by simp
next
  case (2 x)
  then show ?case by simp
next
  case (3 x y zs)
  then have "join sep (y # zs) \<noteq> [] \<and> last (join sep (y # zs)) = last (last (y # zs))"
    by simp
  then show ?case by simp
qed

lemma last_join: "xs \<noteq> [] \<Longrightarrow> last xs \<noteq> [] \<Longrightarrow> last (join sep xs) = last (last xs)"
  using last_join_aux by blast

lemma set_join: "set (join sep xs) \<subseteq> set sep \<union> \<Union> (set ` set xs)"
  by (induction xs rule: induct_list012) auto

lemma set_collectKeys:
  "set (collectKeys items)
     = (\<Union>item \<in> {x \<in> set items. isObjectNotNull x}. set (Object_keys item))"
  using fold_Set_add_first_seen [of "keyScan items"]
  by (simp only: collectKeys_scan set_keyScan)

lemma distinct_collectKeys: "distinct (collectKeys items)"
  using fold_Set_add_first_seen [of "keyScan items"]
  by (simp only: collectKeys_scan)

lemma split_lines_join:
  assumes "ls \<noteq> []" and "\<forall>l\<in>set ls. LF \<notin> set l"
      and "\<forall>l\<in>set (butlast ls). l \<noteq> [] \<longrightarrow> last l \<noteq> CR"
  shows "split_lines [] (join [LF] ls) = ls"
  using assms
proof (induction ls rule: induct_list012)
  case 1
  then show ?case by simp
next
  case (2 x)
  then show ?case by (simp add: split_lines_no_LF)
next
  case (3 x y zs)
  then have ih: "split_lines [] (join [LF] (y # zs)) = y # zs" by simp
  from 3 have x: "LF \<notin> set x" "x \<noteq> [] \<longrightarrow> last x \<noteq> CR" by simp_all
  have "split_lines [] (x @ LF # join [LF] (y # zs)) = ([] @ x) # split_lines [] (join [LF] (y # zs))"
    using x by (rule split_lines_at_LF)
  with ih show ?case by simp
qed

lemma filter_nth_take:
  assumes "j < length xs" and "P (xs ! j)"
  shows "length (filter P (take j xs)) < length (filter P xs)"
    and "filter P xs ! length (filter P (take j xs)) = xs ! j"
proof -
  have "filter P xs = filter P (take j xs @ xs ! j # drop (Suc j) xs)"
    using assms(1) by (metis id_take_nth_drop)
  then have f: "filter P xs = filter P (take j xs) @ xs ! j # filter P (drop (Suc j) xs)"
    using assms(2) by simp
  show "length (filter P (take j xs)) < length (filter P xs)"
    by (subst f) simp
  show "filter P xs ! length (filter P (take j xs)) = xs ! j"
    by (subst f) (simp only: nth_append_length)
qed

lemma plainKey_header: "plainKey k \<Longrightarrow> replace_edge_dquote (trim k) = k"
proof -
  assume p: "plainKey k"
  then have "trim k = k" by (intro trim_id) (simp_all add: plainKey_def)
  moreover from p have "\<not> startsWith_dquote k" "\<not> endsWith_dquote k"
    by (cases k; simp add: plainKey_def startsWith_dquote_def endsWith_dquote_def)+
  ultimately show ?thesis by (simp add: replace_edge_dquote_def)
qed

lemma parseHeaders_join:
  assumes "\<forall>k\<in>set (k0 # ks). plainKey k"
  shows "parseHeaders (join '','' (k0 # ks)) = k0 # ks"
proof -
  have "split_comma [] (join '','' (k0 # ks)) = k0 # ks"
    using assms by (intro split_comma_join) (auto simp: plainKey_def)
  moreover have "map (\<lambda>h. replace_edge_dquote (trim h)) (k0 # ks) = k0 # ks"
    using assms by (intro map_idI) (auto simp: plainKey_header)
  ultimately show ?thesis by (simp add: parseHeaders_def)
qed

lemma distinct_nth_not_later:
  assumes "distinct xs" and "j < length xs"
  shows "xs ! j \<notin> set (drop (Suc j) xs)"
proof -
  have "xs = take j xs @ xs ! j # drop (Suc j) xs"
    using assms(2) by (rule id_take_nth_drop)
  then have "distinct (take j xs @ xs ! j # drop (Suc j) xs)"
    using assms(1) by simp
  then show ?thesis by simp
qed

lemma quoted_field_value: "fieldValue (quoted sv) = autoConvert sv"
  by (simp add: fieldValue_def unquote_quoted)

lemma autoConvert_claim_string:
  "autoConvert (''a,'' @ [dquote] @ ''b'' @ [dquote]) = JStr (''a,'' @ [dquote] @ ''b'' @ [dquote])"
  by (simp add: csv_eval)

lemma quoted_claim_string:
  "quoted (''a,'' @ [dquote] @ ''b'' @ [dquote])
     = [dquote] @ ''a,'' @ [dquote, dquote] @ ''b'' @ [dquote, dquote] @ [dquote]"
  by (simp add: quoted_def replace_dquote_all_def dquote_def)

lemma map_zip_snd: "map (\<lambda>(h, raw). (h, f raw)) (zip xs ys) = zip xs (map f ys)"
  by (simp only: zip_map2)

lemma CR_not_dquote: "dquote \<noteq> CR"
  by (simp add: dquote_def CR_def)

lemma row_ends:
  "join '','' (map quoted (sv # svs)) \<noteq> []"
  "hd (join '','' (map quoted (sv # svs))) = dquote"
  "last (join '','' (map quoted (sv # svs))) = dquote"
proof -
  show "join '','' (map quoted (sv # svs)) \<noteq> []"
    by (simp add: join_not_Nil quoted_ends)
  show "hd (join '','' (map quoted (sv # svs))) = dquote"
    by (simp add: hd_join quoted_ends)
  have ne: "map quoted (sv # svs) \<noteq> []" by simp
  have l: "last (map quoted (sv # svs)) = quoted (last (sv # svs))"
    by (simp only: last_map [OF list.distinct(2)])
  then have "last (map quoted (sv # svs)) \<noteq> []" by (simp add: quoted_ends)
  with ne have "last (join '','' (map quoted (sv # svs))) = last (last (map quoted (sv # svs)))"
    by (rule last_join)
  then show "last (join '','' (map quoted (sv # svs))) = dquote"
    unfolding l by (simp add: quoted_ends)
qed

lemma row_no_LF:
  assumes "\<forall>sv\<in>set svs. LF \<notin> set sv"
  shows "LF \<notin> set (join '','' (map quoted svs))"
proof
  assume "LF \<in> set (join '','' (map quoted svs))"
  with set_join [of "'',''" "map quoted svs"]
  have "LF \<in> set '','' \<union> \<Union> (set ` set (map quoted svs))" by blast
  then obtain sv where sv: "sv \<in> set svs" and "LF \<in> set (quoted sv)" by (auto simp: LF_def)
  then have "LF \<in> insert dquote (set (replace_dquote_all sv))" by (simp add: quoted_def)
  with set_replace_dquote_all [of sv] have "LF \<in> insert dquote (set sv)" by blast
  with assms sv show False by (simp add: LF_def dquote_def)
qed

lemma header_line:
  assumes "\<forall>k\<in>set (k0 # ks). plainKey k"
  shows "join '','' (k0 # ks) \<noteq> []"
    and "\<not> isWhiteSpace (hd (join '','' (k0 # ks)))"
    and "LF \<notin> set (join '','' (k0 # ks))"
    and "last (join '','' (k0 # ks)) \<noteq> CR"
proof -
  have k0: "plainKey k0" using assms by simp
  show "join '','' (k0 # ks) \<noteq> []"
    using k0 by (intro join_not_Nil) (simp add: plainKey_def)
  have "hd (join '','' (k0 # ks)) = hd k0"
    using k0 by (intro hd_join) (simp add: plainKey_def)
  with k0 show "\<not> isWhiteSpace (hd (join '','' (k0 # ks)))" by (simp add: plainKey_def)
  have lastkey: "plainKey (last (k0 # ks))"
    using assms by (metis last_in_set list.distinct(1))
  have "last (join '','' (k0 # ks)) = last (last (k0 # ks))"
    using lastkey by (intro last_join) (simp_all add: plainKey_def)
  with lastkey isWhiteSpace_LF_CR(2) show "last (join '','' (k0 # ks)) \<noteq> CR"
    by (auto simp: plainKey_def)
  show "LF \<notin> set (join '','' (k0 # ks))"
  proof
    assume "LF \<in> set (join '','' (k0 # ks))"
    with set_join [of "'',''" "k0 # ks"] have "LF \<in> set '','' \<union> \<Union> (set ` set (k0 # ks))" by blast
    then obtain k' where "k' \<in> set (k0 # ks)" "LF \<in> set k'" by (auto simp: LF_def)
    with assms show False by (auto simp: plainKey_def)
  qed
qed

lemma rows_roundtrip:
  assumes plain: "\<forall>k\<in>set (k0 # ks). plainKey k"
      and len: "\<forall>svs\<in>set rows. length svs = Suc (length ks)"
      and nolf: "\<forall>svs\<in>set rows. \<forall>sv\<in>set svs. LF \<notin> set sv"
      and ne: "rows \<noteq> []"
  shows "csvToJson (join [LF] (join '','' (k0 # ks) # map (\<lambda>svs. join '','' (map quoted svs)) rows))
           = map (\<lambda>svs. lineObject (k0 # ks) (join '','' (map quoted svs))) rows"
proof -
  let ?H = "join '','' (k0 # ks)"
  let ?R = "\<lambda>svs. join '','' (map quoted svs)"
  let ?ls = "?H # map ?R rows"
  let ?csv = "join [LF] ?ls"
  note H = header_line [OF plain]
  have R: "?R svs \<noteq> []" "hd (?R svs) = dquote" "last (?R svs) = dquote" "LF \<notin> set (?R svs)"
    if "svs \<in> set rows" for svs
  proof -
    from that len have "length svs = Suc (length ks)" by blast
    then obtain sv svs' where svs: "svs = sv # svs'" by (cases svs) auto
    show "?R svs \<noteq> []" "hd (?R svs) = dquote" "last (?R svs) = dquote"
      unfolding svs by (rule row_ends)+
    from that nolf show "LF \<notin> set (?R svs)" by (intro row_no_LF) blast
  qed
  have lines: "split_lines [] ?csv = ?ls"
  proof (rule split_lines_join)
    show "?ls \<noteq> []" by simp
    show "\<forall>l\<in>set ?ls. LF \<notin> set l" using H(3) R(4) by auto
    show "\<forall>l\<in>set (butlast ?ls). l \<noteq> [] \<longrightarrow> last l \<noteq> CR"
    proof (intro ballI impI)
      fix l
      assume "l \<in> set (butlast ?ls)"
      then have "l \<in> set ?ls" by (rule in_set_butlastD)
      then show "last l \<noteq> CR" using H(4) R(3) CR_not_dquote by auto
    qed
  qed
  have last_ls: "last ?ls = ?R (last rows)" using ne by (simp add: last_map)
  have lr: "last rows \<in> set rows" using ne by simp
  have csv_ne: "?csv \<noteq> []" using H(1) by (rule join_not_Nil)
  have csv_hd: "hd ?csv = hd ?H" using H(1) by (rule hd_join)
  have ls_ne: "?ls \<noteq> []" by simp
  have "last ?ls \<noteq> []" unfolding last_ls using R(1) [OF lr] .
  with ls_ne have "last ?csv = last (last ?ls)" by (rule last_join)
  then have csv_last: "last ?csv = dquote" using R(3) [OF lr] by (simp only: last_ls)
  have tr: "trim ?csv = ?csv"
  proof (rule trim_id)
    show "?csv \<noteq> []" by (rule csv_ne)
    show "\<not> isWhiteSpace (hd ?csv)" unfolding csv_hd by (rule H(2))
    show "\<not> isWhiteSpace (last ?csv)" unfolding csv_last by (rule dquote_not_space)
  qed
  have trR: "trim (?R svs) = ?R svs" if "svs \<in> set rows" for svs
    using R(1-3) [OF that] dquote_not_space by (intro trim_id) simp_all
  have m: "map trim (map ?R rows) = map ?R rows"
    using trR by (simp add: map_idI)
  have f: "filter (\<lambda>l. l \<noteq> []) (map ?R rows) = map ?R rows"
    using R(1) by (simp add: filter_id_conv)
  have ph: "parseHeaders ?H = k0 # ks" using plain by (rule parseHeaders_join)
  have d1: "drop 1 ?ls = map ?R rows" by simp
  have n0: "?ls ! 0 = ?H" by simp
  have len2: "\<not> length ?ls < 2" using ne by (cases rows) simp_all
  have "csvToJson ?csv = map (lineObject (parseHeaders (?ls ! 0)))
                   (filter (\<lambda>l. l \<noteq> []) (map trim (drop 1 ?ls)))"
    using len2 by (simp only: csvToJson_rows tr lines Let_def if_False)
  also have "\<dots> = map (lineObject (k0 # ks)) (map ?R rows)"
    by (simp only: d1 n0 ph m f)
  finally show ?thesis by (simp add: comp_def)
qed

lemma quoted_row_lookup:
  assumes d: "distinct hs"
      and i: "i < length hs"
      and l: "length svs = length hs"
      and proto: "hs ! i \<noteq> ''__proto__''"
  shows "\<exists>ps'. lineObject hs (join '','' (map quoted svs)) = JObj ps'
           \<and> map_of ps' (hs ! i) = Some (autoConvert (svs ! i))"
proof -
  let ?fields = "map quoted svs"
  let ?F = "\<lambda>obj (h, raw). assignProp obj h (fieldValue raw)"
  from i l obtain sv svs' where svs: "svs = sv # svs'" by (cases svs) auto
  have sp: "split_splitRegex [] (join '','' ?fields) = ?fields"
    unfolding svs by (rule split_join_quoted)
  have later: "hs ! i \<notin> set (drop (Suc i) (take (length (map fieldValue ?fields)) hs))"
    using distinct_nth_not_later [OF d i] l by simp
  have fi: "map fieldValue ?fields ! i = autoConvert (svs ! i)"
    using i l by (simp add: quoted_field_value)
  have look: "map_of (rev (zip hs (map fieldValue ?fields))) (hs ! i) = Some (autoConvert (svs ! i))"
    using map_of_rev_zip_last [of i hs "map fieldValue ?fields" "hs ! i"] i l later fi by simp
  have m: "map (\<lambda>(h, raw). (h, fieldValue raw)) (zip hs ?fields)
             = zip hs (map fieldValue ?fields)"
    by (rule map_zip_snd)
  have "map_of (ownProps (foldl ?F emptyObject (zip hs ?fields))) (hs ! i)
          = (case map_of (rev (map (\<lambda>(h, raw). (h, fieldValue raw)) (zip hs ?fields))) (hs ! i) of
               Some v \<Rightarrow> Some v | None \<Rightarrow> map_of (ownProps emptyObject) (hs ! i))"
    by (rule map_of_foldl_assignProp [OF proto])
  then have "map_of (ownProps (foldl ?F emptyObject (zip hs ?fields))) (hs ! i)
               = Some (autoConvert (svs ! i))"
    unfolding m look by simp
  moreover have "lineObject hs (join '','' ?fields)
                   = JObj (ownProps (foldl ?F emptyObject (zip hs ?fields)))"
    using sp by (simp only: lineObject_eq)
  ultimately show ?thesis by simp
qed

text \<open>
  The claim as stated fails for the mapping \<^verbatim>\<open>{k: 'a,"b"', n: 'x\ny'}\<close>: the line feed
  of the second value ends the data line inside its quotes, and in what is left of the
  line the comma of \<^verbatim>\<open>a,"b"\<close> has an even number of quotes after it and is taken for a
  separator. \<^verbatim>\<open>csvToJson\<close> returns two mappings, the first with \<^verbatim>\<open>"a\<close> under \<^verbatim>\<open>k\<close>.
\<close>

theorem line_feed_sibling_counterexample:
  "jsonToCsv sampleEngine
      (JArr [JObj [(''k'', JStr (''a,'' @ [dquote] @ ''b'' @ [dquote])), (''n'', JStr ''x\<newline>y'')]])
     = Inr (''k,n\<newline>'' @ [dquote] @ ''a,'' @ [dquote, dquote] @ ''b'' @ [dquote, dquote] @ [dquote]
            @ '','' @ [dquote] @ ''x\<newline>y'' @ [dquote])
   \<and> csvToJson (''k,n\<newline>'' @ [dquote] @ ''a,'' @ [dquote, dquote] @ ''b'' @ [dquote, dquote] @ [dquote]
            @ '','' @ [dquote] @ ''x\<newline>y'' @ [dquote])
     = [JObj [(''k'', JStr ([dquote] @ ''a'')),
              (''n'', JStr ([dquote, dquote] @ ''b'' @ [dquote, dquote] @ [dquote] @ '','' @ [dquote] @ ''x''))],
        JObj [(''k'', JStr (''y'' @ [dquote]))]]"
  by (simp add: json_eval csv_eval)

text \<open>
  C3, as amended. Let the elements of the input be such that every header (every own
  key of a mapping or an array among them) is plain, and that every field of every row
  gets its text without an error and without a line feed in it. Let one element be a
  mapping that holds the string \<^verbatim>\<open>a,"b"\<close> under a key other than \<^verbatim>\<open>__proto__\<close>. Then
  \<^verbatim>\<open>jsonToCsv\<close> writes the field under that key as \<^verbatim>\<open>"a,""b"""\<close>, the text between quotes
  with each inner quote doubled, and returns a text; \<^verbatim>\<open>csvToJson\<close> of that text returns
  one mapping for each mapping or array of the input, in order, and the one for the
  mapping in question holds exactly the string \<^verbatim>\<open>a,"b"\<close> under the key: the comma inside
  the quotes separates nothing.
\<close>

theorem quoted_field_roundtrip:
  assumes s: "s = ''a,'' @ [dquote] @ ''b'' @ [dquote]"
      and j: "j < length items"
      and item: "items ! j = JObj ps"
      and k: "getOwnProperty (JObj ps) k = Some (JStr s)"
      and proto: "k \<noteq> ''__proto__''"
      and plain: "\<forall>h\<in>set (collectKeys items). plainKey h"
      and texts: "\<forall>item\<in>set items. isObjectNotNull item \<longrightarrow>
                    (\<forall>h\<in>set (collectKeys items).
                       \<exists>sv. stringVal eng item h = Inr sv \<and> LF \<notin> set sv)"
  shows "csvField eng (JObj ps) k
           = Inr ([dquote] @ ''a,'' @ [dquote, dquote] @ ''b'' @ [dquote, dquote] @ [dquote])
       \<and> (\<exists>csv. jsonToCsv eng (JArr items) = Inr csv
             \<and> length (csvToJson csv) = length (filter isObjectNotNull items)
             \<and> (\<exists>ps'. csvToJson csv ! length (filter isObjectNotNull (take j items)) = JObj ps'
                      \<and> map_of ps' k = Some (JStr s)))"
proof (intro conjI)
  let ?hs = "collectKeys items"
  let ?objs = "filter isObjectNotNull items"
  let ?sv = "\<lambda>item h. projr (stringVal eng item h)"
  let ?svs = "\<lambda>item. map (?sv item) ?hs"
  let ?R = "\<lambda>svs. join '','' (map quoted svs)"
  let ?r = "length (filter isObjectNotNull (take j items))"
  have obj: "isObjectNotNull (items ! j)" by (simp add: item isObjectNotNull_def)
  have mem: "JObj ps \<in> set items" using j item by (metis nth_mem)
  have "k \<in> fst ` set ps"
    using k by (auto simp: getOwnProperty_def dest: map_of_SomeD intro: rev_image_eqI)
  then have "k \<in> set (Object_keys (JObj ps))" by (simp add: Object_keys_def)
  with mem obj item have khs: "k \<in> set ?hs" unfolding set_collectKeys by auto
  then obtain k0 ks where hs: "?hs = k0 # ks" by (cases ?hs) auto
  from khs obtain i where i: "i < length ?hs" and ki: "?hs ! i = k"
    by (auto simp: in_set_conv_nth)
  have svk: "stringVal eng (JObj ps) k = Inr s"
    using k by (simp add: stringVal_def)
  show "csvField eng (JObj ps) k
           = Inr ([dquote] @ ''a,'' @ [dquote, dquote] @ ''b'' @ [dquote, dquote] @ [dquote])"
    using quoted_claim_string by (simp add: csvField_def svk s quoted_def)
  have t1: "\<forall>item\<in>set items. isObjectNotNull item \<longrightarrow>
             (\<forall>h\<in>set ?hs. \<exists>sv. stringVal eng item h = Inr sv)"
    using texts by blast
  have rows: "csvRows eng items = Inr (join '','' ?hs # map ?R (map ?svs ?objs))"
    using csvRows_texts [OF t1] by (simp add: comp_def)
  have ine: "items \<noteq> []" using j by auto
  let ?csv = "join [LF] (join '','' ?hs # map ?R (map ?svs ?objs))"
  have tx: "jsonToCsv eng (JArr items) = Inr ?csv"
    using ine rows by (simp add: jsonToCsv_def)
  have one: "?r < length ?objs" and this_one: "?objs ! ?r = JObj ps"
    using filter_nth_take [of j items isObjectNotNull] j obj item by simp_all
  have nolf: "\<forall>svs\<in>set (map ?svs ?objs). \<forall>sv\<in>set svs. LF \<notin> set sv"
  proof (intro ballI)
    fix svs sv
    assume "svs \<in> set (map ?svs ?objs)" and sv: "sv \<in> set svs"
    then obtain item where it: "item \<in> set items" "isObjectNotNull item" and svs: "svs = ?svs item"
      by auto
    with sv obtain h where h: "h \<in> set ?hs" and "sv = ?sv item h" by auto
    moreover from texts it h obtain t where "stringVal eng item h = Inr t" "LF \<notin> set t" by blast
    ultimately show "LF \<notin> set sv" by simp
  qed
  have rt: "csvToJson ?csv = map (\<lambda>svs. lineObject ?hs (?R svs)) (map ?svs ?objs)"
    unfolding hs
  proof (rule rows_roundtrip)
    show "\<forall>k\<in>set (k0 # ks). plainKey k" using plain hs by simp
    show "\<forall>svs\<in>set (map (\<lambda>item. map (?sv item) (k0 # ks)) ?objs). length svs = Suc (length ks)"
      by auto
    show "\<forall>svs\<in>set (map (\<lambda>item. map (?sv item) (k0 # ks)) ?objs). \<forall>sv\<in>set svs. LF \<notin> set sv"
      using nolf unfolding hs .
    show "map (\<lambda>item. map (?sv item) (k0 # ks)) ?objs \<noteq> []" using one by auto
  qed
  have len: "length (csvToJson ?csv) = length ?objs" unfolding rt by simp
  have row: "csvToJson ?csv ! ?r = lineObject ?hs (?R (?svs (JObj ps)))"
    unfolding rt using one this_one by simp
  have "\<exists>ps'. lineObject ?hs (?R (?svs (JObj ps))) = JObj ps'
           \<and> map_of ps' (?hs ! i) = Some (autoConvert (?svs (JObj ps) ! i))"
    using distinct_collectKeys i by (rule quoted_row_lookup) (simp_all add: ki proto)
  moreover have "autoConvert (?svs (JObj ps) ! i) = JStr s"
    using i ki svk autoConvert_claim_string by (simp add: s)
  ultimately have "\<exists>ps'. csvToJson ?csv ! ?r = JObj ps' \<and> map_of ps' k = Some (JStr s)"
    unfolding row ki by simp
  with tx len
  show "\<exists>csv. jsonToCsv eng (JArr items) = Inr csv
             \<and> length (csvToJson csv) = length (filter isObjectNotNull items)
             \<and> (\<exists>ps'. csvToJson csv ! length (filter isObjectNotNull (take j items)) = JObj ps'
                      \<and> map_of ps' k = Some (JStr s))"
    by blast
qed

theorem quoted_field_roundtrip_witness:
  "csvField sampleEngine
      (JObj [(''id'', JNum (Finite 8)), (''note'', JStr (''a,'' @ [dquote] @ ''b'' @ [dquote]))]) ''note''
     = Inr ([dquote] @ ''a,'' @ [dquote, dquote] @ ''b'' @ [dquote, dquote] @ [dquote])
   \<and> (\<exists>csv. jsonToCsv sampleEngine
          (JArr [JNull, JObj [(''id'', JNum (Finite 7))],
                 JObj [(''id'', JNum (Finite 8)),
                       (''note'', JStr (''a,'' @ [dquote] @ ''b'' @ [dquote]))]]) = Inr csv
          \<and> length (csvToJson csv) = 2
          \<and> (\<exists>ps'. csvToJson csv ! 1 = JObj ps'
                 \<and> map_of ps' ''note'' = Some (JStr (''a,'' @ [dquote] @ ''b'' @ [dquote]))))"
proof -
  let ?s = "''a,'' @ [dquote] @ ''b'' @ [dquote]"
  let ?ps = "[(''id'', JNum (Finite 8)), (''note'', JStr ?s)]"
  let ?items = "[JNull, JObj [(''id'', JNum (Finite 7))], JObj ?ps]"
  have a: "2 < length ?items" by simp
  have b: "?items ! 2 = JObj ?ps" by simp
  have c: "getOwnProperty (JObj ?ps) ''note'' = Some (JStr ?s)"
    by (simp add: getOwnProperty_def)
  have d: "''note'' \<noteq> ''__proto__''" by simp
  have e: "\<forall>h\<in>set (collectKeys ?items). plainKey h"
    by (simp add: json_eval plainKey_def comma_def isWhiteSpace_def)
  have f: "\<forall>item\<in>set ?items. isObjectNotNull item \<longrightarrow>
             (\<forall>h\<in>set (collectKeys ?items). \<exists>sv. stringVal sampleEngine item h = Inr sv \<and> LF \<notin> set sv)"
    by (simp add: json_eval)
  have g: "length (filter isObjectNotNull ?items) = 2"
    "length (filter isObjectNotNull (take 2 ?items)) = 1"
    by (simp_all add: isObjectNotNull_def)
  from quoted_field_roundtrip [OF refl a b c d e f] show ?thesis
    unfolding g by blast
qed

text \<open>
  Each hypothesis is needed. A key that is not plain: under the key \<^verbatim>\<open>x,y\<close> the
  header line splits in two, and the value comes back under \<^verbatim>\<open>x\<close>. The key
  \<^verbatim>\<open>__proto__\<close>: the assignment \<^verbatim>\<open>obj['__proto__'] = 'a,"b"'\<close> creates no property. A
  text that cannot be had: with \<^verbatim>\<open>{toString: 1}\<close> as another value of the mapping,
  \<^verbatim>\<open>String(val)\<close> throws and there is no text to read back.
\<close>

lemma quoted_field_hypotheses_needed:
  "jsonToCsv sampleEngine (JArr [JObj [(''x,y'', JStr (''a,'' @ [dquote] @ ''b'' @ [dquote]))]])
     = Inr (''x,y\<newline>'' @ [dquote] @ ''a,'' @ [dquote, dquote] @ ''b'' @ [dquote, dquote] @ [dquote])"
  "csvToJson (''x,y\<newline>'' @ [dquote] @ ''a,'' @ [dquote, dquote] @ ''b'' @ [dquote, dquote] @ [dquote])
     = [JObj [(''x'', JStr (''a,'' @ [dquote] @ ''b'' @ [dquote]))]]"
  "jsonToCsv sampleEngine (JArr [JObj [(''__proto__'', JStr (''a,'' @ [dquote] @ ''b'' @ [dquote]))]])
     = Inr (''__proto__\<newline>'' @ [dquote] @ ''a,'' @ [dquote, dquote] @ ''b'' @ [dquote, dquote] @ [dquote])"
  "csvToJson (''__proto__\<newline>'' @ [dquote] @ ''a,'' @ [dquote, dquote] @ ''b'' @ [dquote, dquote] @ [dquote])
     = [JObj []]"
  "jsonToCsv sampleEngine
     (JArr [JObj [(''k'', JStr (''a,'' @ [dquote] @ ''b'' @ [dquote])),
                  (''t'', JObj [(''toString'', JNum (Finite 1))])]])
     = Inl ''Cannot convert object to primitive value''"
  "onmessage sampleEngine
     \<lparr>msg_type = JStr ''JSON_TO_CSV'',
      msg_data = JArr [JObj [(''k'', JStr (''a,'' @ [dquote] @ ''b'' @ [dquote])),
                             (''t'', JObj [(''toString'', JNum (Finite 1))])]],
      msg_id = JNum (Finite 1)\<rparr>
     = [ERROR (JNum (Finite 1)) ''Cannot convert object to primitive value'']"
  by (simp_all add: json_eval csv_eval onmessage_def switch_type_def)

end
